theory Spec2Isabelle
  imports Main "HOL-Library.AList"
begin

section \<open>Strings and values of the host language\<close>

text \<open>
  The engine under study is \<^verbatim>\<open>Command#parse\<close> of \<^verbatim>\<open>src/struct/Command.js\<close> (lines
  282 to 449) together with its helpers \<^verbatim>\<open>_splitText\<close> (451 to 465) and
  \<^verbatim>\<open>_getPrefixes\<close> (467 to 498).  The class \<^verbatim>\<open>Argument\<close> and the constants
  \<^verbatim>\<open>ArgumentMatches\<close>, \<^verbatim>\<open>ArgumentSplits\<close> and \<^verbatim>\<open>Symbols\<close> live in other files; of an
  \<^verbatim>\<open>Argument\<close> the engine uses the fields \<^verbatim>\<open>id\<close>, \<^verbatim>\<open>match\<close>, \<^verbatim>\<open>index\<close>, \<^verbatim>\<open>limit\<close>,
  \<^verbatim>\<open>prefix\<close> and the methods \<^verbatim>\<open>allow\<close>, \<^verbatim>\<open>default\<close> and \<^verbatim>\<open>process\<close>, which are
  parameters here.

  Strings are lists of characters with codes below 256, the Latin-1 range of the
  code units of the host's strings.  On this range the white space of \<^verbatim>\<open>trim\<close> and
  of the classes \<^verbatim>\<open>\s\<close> and \<^verbatim>\<open>\S\<close> is tab, line feed, vertical tab, form feed,
  carriage return, space and the no-break space \<^verbatim>\<open>U+00A0\<close>, and \<^verbatim>\<open>toLowerCase\<close>
  maps \<^verbatim>\<open>A-Z\<close> to \<^verbatim>\<open>a-z\<close> and the letters \<^verbatim>\<open>U+00C0\<close> to \<^verbatim>\<open>U+00DE\<close>, the
  multiplication sign \<^verbatim>\<open>U+00D7\<close> apart, to the letters \<^verbatim>\<open>U+00E0\<close> to \<^verbatim>\<open>U+00FE\<close>;
  every other character of the range is its own lower case.
\<close>

definition isSpace :: "char \<Rightarrow> bool" where
  "isSpace c =
     (c \<in> set [CHR 0x09, CHR 0x0A, CHR 0x0B, CHR 0x0C, CHR 0x0D, CHR '' '', CHR 0xA0])"

definition upperLetters :: string where
  "upperLetters =
     ''ABCDEFGHIJKLMNOPQRSTUVWXYZ'' @
     [CHR 0xC0, CHR 0xC1, CHR 0xC2, CHR 0xC3, CHR 0xC4, CHR 0xC5, CHR 0xC6, CHR 0xC7, CHR 0xC8, CHR 0xC9,
      CHR 0xCA, CHR 0xCB, CHR 0xCC, CHR 0xCD, CHR 0xCE, CHR 0xCF, CHR 0xD0, CHR 0xD1, CHR 0xD2, CHR 0xD3,
      CHR 0xD4, CHR 0xD5, CHR 0xD6, CHR 0xD8, CHR 0xD9, CHR 0xDA, CHR 0xDB, CHR 0xDC, CHR 0xDD, CHR 0xDE]"

definition lowerLetters :: string where
  "lowerLetters =
     ''abcdefghijklmnopqrstuvwxyz'' @
     [CHR 0xE0, CHR 0xE1, CHR 0xE2, CHR 0xE3, CHR 0xE4, CHR 0xE5, CHR 0xE6, CHR 0xE7, CHR 0xE8, CHR 0xE9,
      CHR 0xEA, CHR 0xEB, CHR 0xEC, CHR 0xED, CHR 0xEE, CHR 0xEF, CHR 0xF0, CHR 0xF1, CHR 0xF2, CHR 0xF3,
      CHR 0xF4, CHR 0xF5, CHR 0xF6, CHR 0xF8, CHR 0xF9, CHR 0xFA, CHR 0xFB, CHR 0xFC, CHR 0xFD, CHR 0xFE]"

definition lowerChar :: "char \<Rightarrow> char" where
  "lowerChar c =
     (case map_of (zip upperLetters lowerLetters) c of
        Some d \<Rightarrow> d
      | None \<Rightarrow> c)"

definition toLowerCase :: "string \<Rightarrow> string" where
  "toLowerCase s = map lowerChar s"

definition trim :: "string \<Rightarrow> string" where
  "trim s = rev (dropWhile isSpace (rev (dropWhile isSpace s)))"

definition startsWith :: "string \<Rightarrow> string \<Rightarrow> bool" where
  "startsWith s p = (take (length p) s = p)"

text \<open>
  \<^verbatim>\<open>s.replace(pat, '')\<close> with a string pattern: the first occurrence of \<^verbatim>\<open>pat\<close>
  in \<^verbatim>\<open>s\<close> is removed, and \<^verbatim>\<open>s\<close> is returned as it is when there is none.
\<close>

fun replaceFirst :: "string \<Rightarrow> string \<Rightarrow> string" where
  "replaceFirst pat [] = []"
| "replaceFirst pat (c # cs) =
     (if startsWith (c # cs) pat then drop (length pat) (c # cs)
      else c # replaceFirst pat cs)"

text \<open>
  \<^verbatim>\<open>/^"[^]+"$/.test(s)\<close>: a double quote, at least one character of any kind, a
  double quote.  \<^verbatim>\<open>s.slice(1, -1)\<close> drops the first and the last character.
\<close>

definition quotedRun :: "string \<Rightarrow> bool" where
  "quotedRun s = (3 \<le> length s \<and> hd s = CHR 0x22 \<and> last s = CHR 0x22)"

definition sliceInner :: "string \<Rightarrow> string" where
  "sliceInner s = butlast (tl s)"

text \<open>\<^verbatim>\<open>xs.join(sep)\<close> on an array of strings and \<^verbatim>\<open>s.split(' ')\<close>.\<close>

fun join :: "string \<Rightarrow> string list \<Rightarrow> string" where
  "join sep [] = []"
| "join sep [x] = x"
| "join sep (x # y # zs) = x @ sep @ join sep (y # zs)"

fun splitOn :: "char \<Rightarrow> string \<Rightarrow> string \<Rightarrow> string list" where
  "splitOn sep cur [] = [cur]"
| "splitOn sep cur (c # cs) =
     (if c = sep then cur # splitOn sep [] cs else splitOn sep (cur @ [c]) cs)"

definition splitSpace :: "string \<Rightarrow> string list" where
  "splitSpace s = splitOn (CHR '' '') [] s"

text \<open>
  \<^verbatim>\<open>xs.slice(start, start + lim)\<close> for an integer \<^verbatim>\<open>start\<close> and a \<^verbatim>\<open>lim\<close> that is
  an integer or \<^verbatim>\<open>Infinity\<close> (the limit of a spec may be \<^verbatim>\<open>Infinity\<close>).  A negative
  bound counts from the end of the array, and both bounds are clamped to the array.
\<close>

datatype bound = Finite int | Infinity

definition clampIndex :: "nat \<Rightarrow> int \<Rightarrow> nat" where
  "clampIndex len k = (if k < 0 then nat (max (int len + k) 0) else min (nat k) len)"

definition window :: "'a list \<Rightarrow> int \<Rightarrow> bound \<Rightarrow> 'a list" where
  "window xs start lim =
     (let len = length xs;
          k = clampIndex len start;
          final = (case lim of Infinity \<Rightarrow> len | Finite n \<Rightarrow> clampIndex len (start + n))
      in take (final - k) (drop k xs))"

text \<open>\<^verbatim>\<open>xs[index] || ''\<close> on an array of strings.\<close>

definition wordAt :: "string list \<Rightarrow> int \<Rightarrow> string" where
  "wordAt xs k = (if 0 \<le> k \<and> nat k < length xs then xs ! nat k else [])"

text \<open>
  The values that callbacks return and that end up in the result mapping.  Numbers
  are kept to the integers and \<^verbatim>\<open>NaN\<close>; \<open>Obj\<close> stands for any object that is not an
  array (always truthy).
\<close>

datatype jsval =
    Undefined
  | Null
  | Bool bool
  | Num int
  | NaN
  | Str string
  | Arr "jsval list"
  | Obj nat

fun truthy :: "jsval \<Rightarrow> bool" where
  "truthy Undefined = False"
| "truthy Null = False"
| "truthy (Bool b) = b"
| "truthy (Num n) = (n \<noteq> 0)"
| "truthy NaN = False"
| "truthy (Str s) = (s \<noteq> [])"
| "truthy (Arr vs) = True"
| "truthy (Obj k) = True"

section \<open>The tokenizer\<close>

text \<open>
  The built-in strategies of \<^verbatim>\<open>_splitText\<close> are global regular expression
  matches; each is written as the scanner it denotes, reading the content from left
  to right.  \<open>Idle\<close>: between tokens; \<open>InWord\<close>: inside a run of \<^verbatim>\<open>\S\<close>;
  \<open>InPre\<close>: inside the \<^verbatim>\<open>[^\s"]*?\<close> part of a sticky token; \<open>InQuote\<close>: after the
  opening quote of a quoted run whose closing quote exists; \<open>AfterTok\<close>: after a
  closing quote, where one white space character may still join the token.
\<close>

fun plainGo :: "string \<Rightarrow> string \<Rightarrow> string list" where
  "plainGo cur [] = (if cur = [] then [] else [cur])"
| "plainGo cur (c # cs) =
     (if isSpace c then (if cur = [] then plainGo [] cs else (cur @ [c]) # plainGo [] cs)
      else plainGo (cur @ [c]) cs)"

datatype scan = Idle | InWord string | InPre string | InQuote string | AfterTok string

definition dq :: char where
  "dq = CHR 0x22"

definition stickyOk :: "string \<Rightarrow> bool" where
  "stickyOk s =
     (case dropWhile (\<lambda>x. \<not> isSpace x \<and> x \<noteq> dq) s of
        [] \<Rightarrow> False
      | x # r \<Rightarrow> x = dq \<and> dq \<in> set r)"

fun quotedGo :: "bool \<Rightarrow> scan \<Rightarrow> string \<Rightarrow> string list" where
  "quotedGo sticky Idle [] = []"
| "quotedGo sticky (InWord cur) [] = [cur]"
| "quotedGo sticky (InPre cur) [] = [cur]"
| "quotedGo sticky (InQuote cur) [] = [cur]"
| "quotedGo sticky (AfterTok cur) [] = [cur]"
| "quotedGo sticky Idle (c # cs) =
     (if isSpace c then quotedGo sticky Idle cs
      else if c = dq \<and> dq \<in> set cs then quotedGo sticky (InQuote [c]) cs
      else if sticky \<and> c \<noteq> dq \<and> stickyOk cs then quotedGo sticky (InPre [c]) cs
      else quotedGo sticky (InWord [c]) cs)"
| "quotedGo sticky (InWord cur) (c # cs) =
     (if isSpace c then (cur @ [c]) # quotedGo sticky Idle cs
      else quotedGo sticky (InWord (cur @ [c])) cs)"
| "quotedGo sticky (InPre cur) (c # cs) =
     (if c = dq then quotedGo sticky (InQuote (cur @ [c])) cs
      else quotedGo sticky (InPre (cur @ [c])) cs)"
| "quotedGo sticky (InQuote cur) (c # cs) =
     (if c = dq then quotedGo sticky (AfterTok (cur @ [c])) cs
      else quotedGo sticky (InQuote (cur @ [c])) cs)"
| "quotedGo sticky (AfterTok cur) (c # cs) =
     (if isSpace c then (cur @ [c]) # quotedGo sticky Idle cs
      else if c = dq \<and> dq \<in> set cs then cur # quotedGo sticky (InQuote [c]) cs
      else if sticky \<and> c \<noteq> dq \<and> stickyOk cs then cur # quotedGo sticky (InPre [c]) cs
      else cur # quotedGo sticky (InWord [c]) cs)"

section \<open>Commands, argument specs and the state of one parse call\<close>

text \<open>
  Every function the engine is handed (the custom split function, \<^verbatim>\<open>allow\<close>, a
  dynamic \<^verbatim>\<open>match\<close>, \<^verbatim>\<open>default\<close>, \<^verbatim>\<open>process\<close>, a cancellation probe, the channel's
  \<^verbatim>\<open>send\<close>) is foreign code: it may read and change the world outside the engine
  and it may throw (or return a promise that rejects).  Such a function is a
  transformer of the outside world \<open>'w\<close> that yields an error or a value.  It is
  handed the accumulated results to read; it does not write to them.  The context
  (\<^verbatim>\<open>message\<close>) is always supplied.  One call of \<^verbatim>\<open>parse\<close> runs as one thread of
  control; an \<^verbatim>\<open>await\<close> is the completion of the call it waits for.
\<close>

datatype error = COMMAND_CANCELLED | TypeError | Failure jsval

type_synonym ('a, 'w) ext = "'w \<Rightarrow> (error + 'a) \<times> 'w"

type_synonym results = "(string \<times> jsval) list"

datatype matchType = WORD | REST | SEPARATE | PREFIX | FLAG | TEXT | CONTENT | NONE | UNKNOWN

datatype prefixOption = Absent | Single string | Multiple "string list"

record 'w Channel =
  send :: "jsval \<Rightarrow> (unit, 'w) ext"

record 'w Message =
  channel :: "'w Channel"

datatype 'w matchOption =
    Static matchType
  | Dynamic "'w Message \<Rightarrow> results \<Rightarrow> (matchType, 'w) ext"

record 'w Argument =
  id' :: string
  match :: "'w matchOption"
  index :: "int option"
  limit :: bound
  prefix :: prefixOption
  allow :: "'w Message \<Rightarrow> results \<Rightarrow> (bool, 'w) ext"
  default' :: "'w Message \<Rightarrow> results \<Rightarrow> (jsval, 'w) ext"
  process :: "string \<Rightarrow> 'w Message \<Rightarrow> results \<Rightarrow> (jsval, 'w) ext"

text \<open>
  An element of \<^verbatim>\<open>this.args\<close>: an \<^verbatim>\<open>Argument\<close>, an array of them, or a function
  (a cancellation probe).
\<close>

datatype 'w slot =
    Arg "'w Argument"
  | Group "'w Argument list"
  | Probe "'w Message \<Rightarrow> results \<Rightarrow> (jsval, 'w) ext"

text \<open>
  \<^verbatim>\<open>this.split\<close>: one of the five built-in names, a function that returns the
  words (with their \<^verbatim>\<open>isQuoted\<close> property) or nothing, a string that names a
  property which the table \<^verbatim>\<open>splitFuncs\<close> inherits from \<^verbatim>\<open>Object.prototype\<close>
  (\<^verbatim>\<open>toString\<close>, \<^verbatim>\<open>constructor\<close>, \<^verbatim>\<open>hasOwnProperty\<close>, \<^verbatim>\<open>__proto__\<close> and the
  like), or any other string or regular expression \<open>sep\<close>, of which the model keeps
  \<^verbatim>\<open>c => c.split(sep)\<close>.  The lookup \<^verbatim>\<open>splitFuncs[this.split]\<close> of an inherited
  property is truthy, so the property is called on the content in place of a
  strategy; the call throws or returns a value that is no array, and the model
  keeps the function from the content to the failure or to the truthiness of the
  value returned (\<^verbatim>\<open>toString\<close> and \<^verbatim>\<open>constructor\<close>: truthy for every content;
  \<^verbatim>\<open>hasOwnProperty\<close>: truthy when the content is one of the five built-in names,
  falsy otherwise; \<^verbatim>\<open>__proto__\<close>: no function, a \<^verbatim>\<open>TypeError\<close>).
\<close>

datatype 'w splitOption =
    PLAIN
  | SPLIT
  | QUOTED
  | STICKY
  | SplitNONE
  | SplitFunction "string \<Rightarrow> 'w Message \<Rightarrow> ((string list \<times> bool) option, 'w) ext"
  | SplitInherited "string \<Rightarrow> error + bool"
  | SplitBy "string \<Rightarrow> string list"

record 'w Command =
  args :: "'w slot list"
  split :: "'w splitOption"

text \<open>
  What one call of \<^verbatim>\<open>parse\<close> observes, in order: each call of foreign code with
  the arguments it received (the accumulated results at that moment included), and
  each dispatch into \<^verbatim>\<open>parseFuncs\<close> with the cursor it was given.
\<close>

datatype event =
    EvSplit string
  | EvProbe nat results
  | EvSend jsval
  | EvAllow string results
  | EvMatch string results
  | EvDispatch string matchType nat
  | EvDefault string results
  | EvProcess string string results

text \<open>
  The state of one call: the two variables \<^verbatim>\<open>processed\<close> and \<^verbatim>\<open>wordIndex\<close> that the
  closures of \<^verbatim>\<open>parse\<close> share, the outside world, and the events so far.
  \<^verbatim>\<open>processed[k] = v\<close> is \<open>AList.update k v\<close>.
\<close>

record 'w pstate =
  processed :: results
  wordIndex :: nat
  world :: 'w
  trace :: "event list"

definition call :: "event \<Rightarrow> ('a, 'w) ext \<Rightarrow> 'w pstate \<Rightarrow> (error + 'a) \<times> 'w pstate" where
  "call ev f st =
     (case f (world st) of (r, w') \<Rightarrow> (r, st\<lparr>world := w', trace := trace st @ [ev]\<rparr>))"

section \<open>\<^verbatim>\<open>_splitText\<close> and \<^verbatim>\<open>_getPrefixes\<close>\<close>

text \<open>
  \<^verbatim>\<open>_splitText(content, message)\<close>.  The value returned is an array of words with
  its \<^verbatim>\<open>isQuoted\<close> property, or, after the call of an inherited property that
  returns a truthy value, a value that is no array (\<open>None\<close>); a falsy value is
  replaced by the empty array.
\<close>

definition splitText ::
  "'w Command \<Rightarrow> string \<Rightarrow> 'w Message \<Rightarrow> 'w pstate
     \<Rightarrow> (error + (string list \<times> bool) option) \<times> 'w pstate"
where
  "splitText cmd content message st =
     (case split cmd of
        SplitFunction f \<Rightarrow>
          (case call (EvSplit content) (f content message) st of
             (Inl e, st1) \<Rightarrow> (Inl e, st1)
           | (Inr None, st1) \<Rightarrow> (Inr (Some ([], False)), st1)
           | (Inr (Some ws), st1) \<Rightarrow> (Inr (Some ws), st1))
      | PLAIN \<Rightarrow>
          (Inr (Some (plainGo [] content, False)), st\<lparr>trace := trace st @ [EvSplit content]\<rparr>)
      | SPLIT \<Rightarrow>
          (Inr (Some (splitSpace content, False)), st\<lparr>trace := trace st @ [EvSplit content]\<rparr>)
      | QUOTED \<Rightarrow>
          (Inr (Some (quotedGo False Idle content, False)),
           st\<lparr>trace := trace st @ [EvSplit content]\<rparr>)
      | STICKY \<Rightarrow>
          (Inr (Some (quotedGo True Idle content, False)),
           st\<lparr>trace := trace st @ [EvSplit content]\<rparr>)
      | SplitNONE \<Rightarrow>
          (Inr (Some ([content], False)), st\<lparr>trace := trace st @ [EvSplit content]\<rparr>)
      | SplitInherited f \<Rightarrow>
          (case f content of
             Inl e \<Rightarrow> (Inl e, st\<lparr>trace := trace st @ [EvSplit content]\<rparr>)
           | Inr True \<Rightarrow> (Inr None, st\<lparr>trace := trace st @ [EvSplit content]\<rparr>)
           | Inr False \<Rightarrow>
               (Inr (Some ([], False)), st\<lparr>trace := trace st @ [EvSplit content]\<rparr>))
      | SplitBy f \<Rightarrow>
          (Inr (Some (f content, False)), st\<lparr>trace := trace st @ [EvSplit content]\<rparr>))"

record descriptor =
  "value" :: string
  flag :: bool

text \<open>\<^verbatim>\<open>arg.match === m\<close>: false when \<^verbatim>\<open>arg.match\<close> is a function.\<close>

definition matchIs :: "'w Argument \<Rightarrow> matchType \<Rightarrow> bool" where
  "matchIs arg m = (case match arg of Static m' \<Rightarrow> m' = m | Dynamic f \<Rightarrow> False)"

definition pushPrefix :: "'w Argument \<Rightarrow> descriptor list \<Rightarrow> error + descriptor list" where
  "pushPrefix arg prefixes =
     (if matchIs arg PREFIX \<or> matchIs arg FLAG then
        (case prefix arg of
           Multiple ps \<Rightarrow>
             Inr (prefixes @ map (\<lambda>p. \<lparr>value = toLowerCase p, flag = matchIs arg FLAG\<rparr>) ps)
         | Single p \<Rightarrow> Inr (prefixes @ [\<lparr>value = toLowerCase p, flag = matchIs arg FLAG\<rparr>])
         | Absent \<Rightarrow> Inl TypeError)
      else Inr prefixes)"

fun pushGroup :: "'w Argument list \<Rightarrow> descriptor list \<Rightarrow> error + descriptor list" where
  "pushGroup [] prefixes = Inr prefixes"
| "pushGroup (a # as) prefixes =
     (case pushPrefix a prefixes of
        Inl e \<Rightarrow> Inl e
      | Inr prefixes' \<Rightarrow> pushGroup as prefixes')"

text \<open>
  The loop over \<^verbatim>\<open>this.args\<close>.  A probe is a function and has no \<^verbatim>\<open>match\<close>
  property, so \<^verbatim>\<open>pushPrefix\<close> pushes nothing for it.
\<close>

fun getPrefixesFrom :: "'w slot list \<Rightarrow> descriptor list \<Rightarrow> error + descriptor list" where
  "getPrefixesFrom [] prefixes = Inr prefixes"
| "getPrefixesFrom (Group as # rest) prefixes =
     (case pushGroup as prefixes of
        Inl e \<Rightarrow> Inl e
      | Inr prefixes' \<Rightarrow> getPrefixesFrom rest prefixes')"
| "getPrefixesFrom (Arg a # rest) prefixes =
     (case pushPrefix a prefixes of
        Inl e \<Rightarrow> Inl e
      | Inr prefixes' \<Rightarrow> getPrefixesFrom rest prefixes')"
| "getPrefixesFrom (Probe f # rest) prefixes = getPrefixesFrom rest prefixes"

definition getPrefixes :: "'w Command \<Rightarrow> error + descriptor list" where
  "getPrefixes cmd = getPrefixesFrom (args cmd) []"

definition noPrefix :: "descriptor list \<Rightarrow> string list \<Rightarrow> string list" where
  "noPrefix prefixes words =
     filter (\<lambda>w0. let w = trim w0 in
        \<not> list_ex (\<lambda>p. if \<not> flag p then startsWith (toLowerCase w) (value p)
                       else toLowerCase w = value p) prefixes) words"

section \<open>The match dispatcher \<^verbatim>\<open>parseFuncs\<close>\<close>

text \<open>The constants that the closures of one \<^verbatim>\<open>parse\<close> call share.\<close>

record penv =
  content :: string
  words :: "string list"
  isQuoted :: bool
  noPrefixWords :: "string list"

type_synonym 'w processFunc = "'w Message \<Rightarrow> 'w pstate \<Rightarrow> (error + jsval) \<times> 'w pstate"

text \<open>
  \<^verbatim>\<open>arg.process.bind(arg, word)\<close>, called later as \<^verbatim>\<open>processFunc(message, processed)\<close>
  where \<^verbatim>\<open>processed\<close> is the shared object, read from the state.
\<close>

definition bindProcess :: "'w Argument \<Rightarrow> string \<Rightarrow> 'w processFunc" where
  "bindProcess arg word message st =
     call (EvProcess (id' arg) word (processed st))
          (process arg word message (processed st)) st"

definition indexOr :: "'w Argument \<Rightarrow> int \<Rightarrow> int" where
  "indexOr arg k = (case index arg of Some j \<Rightarrow> j | None \<Rightarrow> k)"

definition joiner :: "'w Command \<Rightarrow> string" where
  "joiner cmd = (case split cmd of SPLIT \<Rightarrow> '' '' | _ \<Rightarrow> [])"

definition unquote :: "bool \<Rightarrow> string \<Rightarrow> string" where
  "unquote q word = (if q \<and> quotedRun (trim word) then sliceInner (trim word) else word)"

definition wordWORD :: "penv \<Rightarrow> 'w Argument \<Rightarrow> nat \<Rightarrow> string" where
  "wordWORD env arg idx =
     unquote (isQuoted env) (wordAt (noPrefixWords env) (indexOr arg (int idx)))"

definition wordREST :: "'w Command \<Rightarrow> penv \<Rightarrow> 'w Argument \<Rightarrow> nat \<Rightarrow> string" where
  "wordREST cmd env arg idx =
     join (joiner cmd) (window (noPrefixWords env) (indexOr arg (int idx)) (limit arg))"

text \<open>
  The loop of the SEPARATE evaluator.  \<open>res\<close> is the array that was stored at
  \<^verbatim>\<open>processed[arg.id]\<close> before the loop; a push to it shows through that entry.
\<close>

fun separateLoop ::
  "'w Argument \<Rightarrow> 'w Message \<Rightarrow> string list \<Rightarrow> jsval list \<Rightarrow> 'w pstate
     \<Rightarrow> (error + jsval) \<times> 'w pstate"
where
  "separateLoop arg message [] res st = (Inr (Arr res), st)"
| "separateLoop arg message (word # wordArr) res st =
     (case call (EvProcess (id' arg) word (processed st))
                (process arg word message (processed st)) st of
        (Inl e, st1) \<Rightarrow> (Inl e, st1)
      | (Inr v, st1) \<Rightarrow>
          separateLoop arg message wordArr (res @ [v])
            (st1\<lparr>processed := AList.update (id' arg) (Arr (res @ [v])) (processed st1)\<rparr>))"

definition parseSEPARATE :: "penv \<Rightarrow> 'w Argument \<Rightarrow> nat \<Rightarrow> 'w processFunc" where
  "parseSEPARATE env arg idx =
     (let wordArr = window (noPrefixWords env) (indexOr arg (int idx)) (limit arg) in
      if wordArr = [] then bindProcess arg []
      else (\<lambda>msg st.
        separateLoop arg msg wordArr []
          (st\<lparr>processed := AList.update (id' arg) (Arr []) (processed st)\<rparr>)))"

text \<open>
  The scan of PREFIX mode over \<^verbatim>\<open>words\<close> from the last word to the first (the
  argument is the reversed array).  The result is \<^verbatim>\<open>(prefixUsed, wordFound)\<close>.
\<close>

fun prefixScan :: "prefixOption \<Rightarrow> string list \<Rightarrow> error + (string \<times> string) option" where
  "prefixScan pre [] = Inr None"
| "prefixScan pre (w # ws) =
     (let word = toLowerCase (trim w) in
      case pre of
        Multiple ps \<Rightarrow>
          (case find (\<lambda>p. startsWith word (toLowerCase p)) ps of
             Some p \<Rightarrow> Inr (Some (p, word))
           | None \<Rightarrow> prefixScan pre ws)
      | Single p \<Rightarrow>
          if startsWith word (toLowerCase p) then Inr (Some (p, word)) else prefixScan pre ws
      | Absent \<Rightarrow> Inl TypeError)"

definition wordPREFIX :: "penv \<Rightarrow> 'w Argument \<Rightarrow> error + string" where
  "wordPREFIX env arg =
     (case prefixScan (prefix arg) (rev (words env)) of
        Inl e \<Rightarrow> Inl e
      | Inr None \<Rightarrow> Inr []
      | Inr (Some (prefixUsed, wordFound)) \<Rightarrow>
          if wordFound \<noteq> [] \<and> prefixUsed \<noteq> []
          then Inr (unquote (isQuoted env) (replaceFirst prefixUsed wordFound))
          else Inr wordFound)"

fun flagScan :: "prefixOption \<Rightarrow> bool \<Rightarrow> string list \<Rightarrow> error + bool" where
  "flagScan pre flagFound [] = Inr flagFound"
| "flagScan pre flagFound (w # ws) =
     (let word = toLowerCase (trim w) in
      case pre of
        Multiple ps \<Rightarrow> flagScan pre (flagFound \<or> list_ex (\<lambda>p. word = toLowerCase p) ps) ws
      | Single p \<Rightarrow> if word = toLowerCase p then Inr True else flagScan pre flagFound ws
      | Absent \<Rightarrow> Inl TypeError)"

definition flagEval :: "'w Argument \<Rightarrow> bool \<Rightarrow> 'w processFunc" where
  "flagEval arg flagFound msg st =
     (case call (EvDefault (id' arg) (processed st)) (default' arg msg (processed st)) st of
        (Inl e, st1) \<Rightarrow> (Inl e, st1)
      | (Inr d, st1) \<Rightarrow>
          (let inverse = \<not> truthy d in
           (Inr (Bool (if inverse then flagFound else \<not> flagFound)), st1)))"

definition parseFLAG :: "penv \<Rightarrow> 'w Argument \<Rightarrow> error + 'w processFunc" where
  "parseFLAG env arg =
     (case flagScan (prefix arg) False (rev (words env)) of
        Inl e \<Rightarrow> Inl e
      | Inr flagFound \<Rightarrow> Inr (flagEval arg flagFound))"

definition wordTEXT :: "'w Command \<Rightarrow> penv \<Rightarrow> 'w Argument \<Rightarrow> string" where
  "wordTEXT cmd env arg =
     join (joiner cmd)
       (window (noPrefixWords env) (case index arg of None \<Rightarrow> 0 | Some j \<Rightarrow> j) (limit arg))"

definition wordCONTENT :: "penv \<Rightarrow> 'w Argument \<Rightarrow> string" where
  "wordCONTENT env arg =
     join '' ''
       (window (splitSpace (content env)) (case index arg of None \<Rightarrow> 0 | Some j \<Rightarrow> j)
          (limit arg))"

text \<open>
  \<^verbatim>\<open>parseFuncs[matchType](arg, wordIndex)\<close>.  A \<^verbatim>\<open>matchType\<close> that is no key of the
  table yields \<^verbatim>\<open>undefined\<close>, and calling that throws.
\<close>

definition parseFuncs ::
  "'w Command \<Rightarrow> penv \<Rightarrow> matchType \<Rightarrow> 'w Argument \<Rightarrow> nat \<Rightarrow> error + 'w processFunc"
where
  "parseFuncs cmd env matchType arg idx =
     (case matchType of
        WORD \<Rightarrow> Inr (bindProcess arg (wordWORD env arg idx))
      | REST \<Rightarrow> Inr (bindProcess arg (wordREST cmd env arg idx))
      | SEPARATE \<Rightarrow> Inr (parseSEPARATE env arg idx)
      | PREFIX \<Rightarrow>
          (case wordPREFIX env arg of Inl e \<Rightarrow> Inl e | Inr word \<Rightarrow> Inr (bindProcess arg word))
      | FLAG \<Rightarrow> parseFLAG env arg
      | TEXT \<Rightarrow> Inr (bindProcess arg (wordTEXT cmd env arg))
      | CONTENT \<Rightarrow> Inr (bindProcess arg (wordCONTENT env arg))
      | NONE \<Rightarrow> Inr (bindProcess arg [])
      | UNKNOWN \<Rightarrow> Inl TypeError)"

section \<open>The sequential evaluator\<close>

text \<open>\<^verbatim>\<open>arg.find(a => a.allow(message, processed))\<close> on an array of specs.\<close>

fun findAllowed ::
  "'w Argument list \<Rightarrow> 'w Message \<Rightarrow> 'w pstate \<Rightarrow> (error + 'w Argument option) \<times> 'w pstate"
where
  "findAllowed [] message st = (Inr None, st)"
| "findAllowed (a # as) message st =
     (case call (EvAllow (id' a) (processed st)) (allow a message (processed st)) st of
        (Inl e, st1) \<Rightarrow> (Inl e, st1)
      | (Inr ok, st1) \<Rightarrow> if ok then (Inr (Some a), st1) else findAllowed as message st1)"

text \<open>
  \<^verbatim>\<open>typeof arg.match === 'function' ? arg.match(message, processed) : arg.match\<close>
\<close>

definition resolveMatch ::
  "'w Message \<Rightarrow> 'w Argument \<Rightarrow> 'w pstate \<Rightarrow> (error + matchType) \<times> 'w pstate"
where
  "resolveMatch message arg st =
     (case match arg of
        Static m \<Rightarrow> (Inr m, st)
      | Dynamic f \<Rightarrow> call (EvMatch (id' arg) (processed st)) (f message (processed st)) st)"

text \<open>
  The tail of \<^verbatim>\<open>process\<close> once the active spec is known: resolve the mode, build
  the evaluator with the current cursor, advance the cursor for WORD, REST and
  SEPARATE, await the evaluator and store its result.
\<close>

definition evaluate ::
  "'w Command \<Rightarrow> penv \<Rightarrow> 'w Message \<Rightarrow> 'w Argument \<Rightarrow> 'w pstate \<Rightarrow> (error + unit) \<times> 'w pstate"
where
  "evaluate cmd env message arg st =
     (case resolveMatch message arg st of
        (Inl e, st1) \<Rightarrow> (Inl e, st1)
      | (Inr matchType, st1) \<Rightarrow>
          (let st2 = st1\<lparr>trace := trace st1 @ [EvDispatch (id' arg) matchType (wordIndex st1)]\<rparr>
           in case parseFuncs cmd env matchType arg (wordIndex st1) of
                Inl e \<Rightarrow> (Inl e, st2)
              | Inr processFunc \<Rightarrow>
                  (let st3 = (if matchType \<in> set [WORD, REST, SEPARATE]
                              then st2\<lparr>wordIndex := wordIndex st2 + 1\<rparr> else st2)
                   in case processFunc message st3 of
                        (Inl e, st4) \<Rightarrow> (Inl e, st4)
                      | (Inr res, st4) \<Rightarrow>
                          (Inr (),
                           st4\<lparr>processed := AList.update (id' arg) res (processed st4)\<rparr>))))"

text \<open>
  The closure \<^verbatim>\<open>process\<close> of \<^verbatim>\<open>parse\<close>.  It is only ever entered with
  \<open>i \<le> length (args cmd)\<close>; beyond the array \<^verbatim>\<open>this.args[i]\<close> is \<^verbatim>\<open>undefined\<close> and
  reading \<^verbatim>\<open>arg.allow\<close> throws.
\<close>

function parse_process ::
  "'w Command \<Rightarrow> penv \<Rightarrow> 'w Message \<Rightarrow> nat \<Rightarrow> 'w pstate \<Rightarrow> (error + results) \<times> 'w pstate"
where
  "parse_process cmd env message i st =
     (if i = length (args cmd) then (Inr (processed st), st)
      else if length (args cmd) < i then (Inl TypeError, st)
      else
        (case args cmd ! i of
           Probe f \<Rightarrow>
             (case call (EvProbe i (processed st)) (f message (processed st)) st of
                (Inl e, st1) \<Rightarrow> (Inl e, st1)
              | (Inr cancel, st1) \<Rightarrow>
                  if cancel \<noteq> Null \<and> cancel \<noteq> Undefined \<and> cancel \<noteq> Bool False then
                    (if truthy cancel \<and> cancel \<noteq> Bool True then
                       (case call (EvSend cancel) (send (channel message) cancel) st1 of
                          (Inl e, st2) \<Rightarrow> (Inl e, st2)
                        | (Inr u, st2) \<Rightarrow> (Inl COMMAND_CANCELLED, st2))
                     else (Inl COMMAND_CANCELLED, st1))
                  else parse_process cmd env message (i + 1) st1)
         | Group as \<Rightarrow>
             (case findAllowed as message st of
                (Inl e, st1) \<Rightarrow> (Inl e, st1)
              | (Inr None, st1) \<Rightarrow> parse_process cmd env message (i + 1) st1
              | (Inr (Some arg), st1) \<Rightarrow>
                  (case evaluate cmd env message arg st1 of
                     (Inl e, st2) \<Rightarrow> (Inl e, st2)
                   | (Inr u, st2) \<Rightarrow> parse_process cmd env message (i + 1) st2))
         | Arg arg \<Rightarrow>
             (case call (EvAllow (id' arg) (processed st)) (allow arg message (processed st)) st of
                (Inl e, st1) \<Rightarrow> (Inl e, st1)
              | (Inr ok, st1) \<Rightarrow>
                  if \<not> ok then parse_process cmd env message (i + 1) st1
                  else
                    (case evaluate cmd env message arg st1 of
                       (Inl e, st2) \<Rightarrow> (Inl e, st2)
                     | (Inr u, st2) \<Rightarrow> parse_process cmd env message (i + 1) st2))))"
  by pat_completeness auto
termination
  by (relation "measure (\<lambda>(cmd, env, message, i, st). length (args cmd) - i)") auto

declare parse_process.simps [simp del]

text \<open>
  \<^verbatim>\<open>parse(content, message)\<close>, run in the world \<open>w\<close>.  The result is what the call
  resolves to or fails with, together with the final state of the call.  When
  \<^verbatim>\<open>_splitText\<close> has returned a value that is no array, \<^verbatim>\<open>words.isQuoted\<close> is
  undefined, \<^verbatim>\<open>_getPrefixes\<close> runs, and \<^verbatim>\<open>words.filter\<close> is no function: the call
  throws a \<^verbatim>\<open>TypeError\<close> before any slot is evaluated.
\<close>

definition parse ::
  "'w Command \<Rightarrow> string \<Rightarrow> 'w Message \<Rightarrow> 'w \<Rightarrow> (error + results) \<times> 'w pstate"
where
  "parse cmd content' message w =
     (let st0 = \<lparr>processed = [], wordIndex = 0, world = w, trace = []\<rparr> in
      if args cmd = [] then (Inr [], st0)
      else
        (case splitText cmd content' message st0 of
           (Inl e, st1) \<Rightarrow> (Inl e, st1)
         | (Inr split', st1) \<Rightarrow>
             (case getPrefixes cmd of
                Inl e \<Rightarrow> (Inl e, st1)
              | Inr prefixes \<Rightarrow>
                  (case split' of
                     None \<Rightarrow> (Inl TypeError, st1)
                   | Some (words', quoted) \<Rightarrow>
                       (let isQuoted' =
                              (case split cmd of QUOTED \<Rightarrow> True | STICKY \<Rightarrow> True | _ \<Rightarrow> quoted)
                        in parse_process cmd
                             \<lparr>content = content', words = words', isQuoted = isQuoted',
                              noPrefixWords = noPrefix prefixes words'\<rparr>
                             message 0 st1)))))"

section \<open>Notions used to state the properties\<close>

text \<open>
  The prefix values of a spec, and the specs of a slot list with the members of
  alternative groups included.
\<close>

definition prefixValues :: "prefixOption \<Rightarrow> string list" where
  "prefixValues pre = (case pre of Absent \<Rightarrow> [] | Single p \<Rightarrow> [p] | Multiple ps \<Rightarrow> ps)"

fun specsOf :: "'w slot list \<Rightarrow> 'w Argument list" where
  "specsOf [] = []"
| "specsOf (Arg a # rest) = a # specsOf rest"
| "specsOf (Group as # rest) = as @ specsOf rest"
| "specsOf (Probe f # rest) = specsOf rest"

definition descriptorsOf :: "'w Argument \<Rightarrow> descriptor list" where
  "descriptorsOf a =
     (if matchIs a PREFIX \<or> matchIs a FLAG
      then map (\<lambda>p. \<lparr>value = toLowerCase p, flag = matchIs a FLAG\<rparr>) (prefixValues (prefix a))
      else [])"

text \<open>
  The scan of PREFIX mode as the specification words it: the tokens are visited
  from the last to the first (the argument is the reversed pool), each one trimmed
  and lowercased, and the prefix values are tested in list order within a token
  before an earlier token is looked at.  The result is the first hit: the prefix
  value that matched and the trimmed, lowercased token.
\<close>

fun firstHit :: "string list \<Rightarrow> string list \<Rightarrow> (string \<times> string) option" where
  "firstHit vs [] = None"
| "firstHit vs (t # ts) =
     (case find (\<lambda>v. startsWith (toLowerCase (trim t)) (toLowerCase v)) vs of
        Some v \<Rightarrow> Some (v, toLowerCase (trim t))
      | None \<Rightarrow> firstHit vs ts)"

text \<open>
  The string that PREFIX mode feeds to the resolver according to the
  specification: on a hit the matched prefix is stripped from the token, the
  remainder is trimmed, and one layer of surrounding double quotes is removed when
  \<open>isQuoted\<close> holds; without a hit it is the empty string.
\<close>

definition dequote :: "string \<Rightarrow> string" where
  "dequote s = (if 2 \<le> length s \<and> hd s = dq \<and> last s = dq then butlast (tl s) else s)"

definition claimedPrefixWord :: "bool \<Rightarrow> string list \<Rightarrow> string list \<Rightarrow> string" where
  "claimedPrefixWord q tokens vs =
     (case firstHit vs (rev tokens) of
        None \<Rightarrow> []
      | Some (v, t) \<Rightarrow>
          (let r = trim (drop (length v) t) in if q then dequote r else r))"

text \<open>
  The result of FLAG mode as the specification words it: \<open>found\<close> holds when some
  token of the pool, visited from the last to the first, trimmed and lowercased, is
  exactly equal to one of the prefix values of the spec, taken as they are written;
  the result is \<open>found\<close> when the value of \<^verbatim>\<open>default\<close> is falsy and its negation
  otherwise.
\<close>

definition claimedFlagFound :: "string list \<Rightarrow> string list \<Rightarrow> bool" where
  "claimedFlagFound tokens vs =
     list_ex (\<lambda>t. list_ex (\<lambda>p. toLowerCase (trim t) = p) vs) (rev tokens)"

definition claimedFlagResult :: "string list \<Rightarrow> string list \<Rightarrow> jsval \<Rightarrow> bool" where
  "claimedFlagResult tokens vs d =
     (let found = claimedFlagFound tokens vs;
          inverse = \<not> truthy d
      in if inverse then found else \<not> found)"

text \<open>
  The dispatches that advance the positional cursor, and the property of a list of
  events that every dispatch in it was handed the cursor \<open>k\<close> plus the number of
  such dispatches before it.
\<close>

fun positional :: "event \<Rightarrow> bool" where
  "positional (EvDispatch a m k) = (m \<in> set [WORD, REST, SEPARATE])"
| "positional e = False"

fun tracks :: "nat \<Rightarrow> event list \<Rightarrow> bool" where
  "tracks k [] = True"
| "tracks k (EvDispatch a m c # es) =
     (c = k \<and> tracks (if m \<in> set [WORD, REST, SEPARATE] then Suc k else k) es)"
| "tracks k (e # es) = tracks k es"

text \<open>
  One round of \<^verbatim>\<open>process\<close> without the recursive call: what slot \<open>i\<close> does to the
  state, and whether the evaluation goes on (\<open>Inr\<close>) or is over (\<open>Inl\<close>).
\<close>

definition slotStep ::
  "'w Command \<Rightarrow> penv \<Rightarrow> 'w Message \<Rightarrow> nat \<Rightarrow> 'w slot \<Rightarrow> 'w pstate \<Rightarrow> (error + unit) \<times> 'w pstate"
where
  "slotStep cmd env message i slot st =
     (case slot of
        Probe f \<Rightarrow>
          (case call (EvProbe i (processed st)) (f message (processed st)) st of
             (Inl e, st1) \<Rightarrow> (Inl e, st1)
           | (Inr cancel, st1) \<Rightarrow>
               if cancel \<noteq> Null \<and> cancel \<noteq> Undefined \<and> cancel \<noteq> Bool False then
                 (if truthy cancel \<and> cancel \<noteq> Bool True then
                    (case call (EvSend cancel) (send (channel message) cancel) st1 of
                       (Inl e, st2) \<Rightarrow> (Inl e, st2)
                     | (Inr u, st2) \<Rightarrow> (Inl COMMAND_CANCELLED, st2))
                  else (Inl COMMAND_CANCELLED, st1))
               else (Inr (), st1))
      | Group as \<Rightarrow>
          (case findAllowed as message st of
             (Inl e, st1) \<Rightarrow> (Inl e, st1)
           | (Inr None, st1) \<Rightarrow> (Inr (), st1)
           | (Inr (Some arg), st1) \<Rightarrow> evaluate cmd env message arg st1)
      | Arg arg \<Rightarrow>
          (case call (EvAllow (id' arg) (processed st)) (allow arg message (processed st)) st of
             (Inl e, st1) \<Rightarrow> (Inl e, st1)
           | (Inr ok, st1) \<Rightarrow>
               if \<not> ok then (Inr (), st1) else evaluate cmd env message arg st1))"

text \<open>
  \<open>advances st st'\<close>: the events of \<open>st'\<close> extend those of \<open>st\<close>, the cursor has grown
  by the number of new positional dispatches, and the new dispatches were handed
  the cursor of their moment.
\<close>

definition advances :: "'w pstate \<Rightarrow> 'w pstate \<Rightarrow> bool" where
  "advances st st' =
     (\<exists>new. trace st' = trace st @ new
          \<and> wordIndex st' = wordIndex st + length (filter positional new)
          \<and> tracks (wordIndex st) new)"

text \<open>
  Determinism of foreign code: what a call yields does not depend on the outside
  world it is made in.  A command is deterministic for a context when this holds of
  the \<^verbatim>\<open>allow\<close>, \<^verbatim>\<open>default\<close>, \<^verbatim>\<open>process\<close> and dynamic \<^verbatim>\<open>match\<close> functions of all its
  specs, of its probes and of its split function.
\<close>

definition pureExt :: "('a, 'w) ext \<Rightarrow> bool" where
  "pureExt f = (\<forall>w w'. fst (f w) = fst (f w'))"

definition deterministicArg :: "'w Message \<Rightarrow> 'w Argument \<Rightarrow> bool" where
  "deterministicArg message a =
     ((\<forall>r. pureExt (allow a message r)) \<and> (\<forall>r. pureExt (default' a message r))
      \<and> (\<forall>word r. pureExt (process a word message r))
      \<and> (case match a of Static m \<Rightarrow> True | Dynamic f \<Rightarrow> \<forall>r. pureExt (f message r)))"

fun deterministicSlot :: "'w Message \<Rightarrow> 'w slot \<Rightarrow> bool" where
  "deterministicSlot message (Arg a) = deterministicArg message a"
| "deterministicSlot message (Group as) = list_all (deterministicArg message) as"
| "deterministicSlot message (Probe f) = (\<forall>r. pureExt (f message r))"

definition deterministic :: "'w Command \<Rightarrow> 'w Message \<Rightarrow> bool" where
  "deterministic cmd message =
     (list_all (deterministicSlot message) (args cmd)
      \<and> (case split cmd of SplitFunction f \<Rightarrow> \<forall>c. pureExt (f c message) | _ \<Rightarrow> True))"

text \<open>
  A state without its outside world; two outcomes are the same when they yield the
  same and leave states that differ in the outside world only, and they agree when
  they are the same or both fail.
\<close>

definition erase :: "'w pstate \<Rightarrow> unit pstate" where
  "erase st = \<lparr>processed = processed st, wordIndex = wordIndex st, world = (), trace = trace st\<rparr>"

definition same :: "'a \<times> 'w pstate \<Rightarrow> 'a \<times> 'w pstate \<Rightarrow> bool" where
  "same x y = (fst x = fst y \<and> erase (snd x) = erase (snd y))"

definition agree :: "(error + 'a) \<times> 'w pstate \<Rightarrow> (error + 'a) \<times> 'w pstate \<Rightarrow> bool" where
  "agree x y = (same x y \<or> (isl (fst x) \<and> isl (fst y)))"

section \<open>Example inputs\<close>

text \<open>
  A context and specs whose callbacks count the foreign calls in the outside world
  (a natural number): every call adds one.
\<close>

definition exMessage :: "nat Message" where
  "exMessage = \<lparr>channel = \<lparr>send = (\<lambda>v w. (Inr (), Suc w))\<rparr>\<rparr>"

definition exArg :: "string \<Rightarrow> matchType \<Rightarrow> prefixOption \<Rightarrow> nat Argument" where
  "exArg name m pre =
     \<lparr>id' = name, match = Static m, index = None, limit = Infinity, prefix = pre,
      allow = (\<lambda>msg r w. (Inr True, Suc w)),
      default' = (\<lambda>msg r w. (Inr (Bool False), Suc w)),
      process = (\<lambda>word msg r w. (Inr (Str word), Suc w))\<rparr>"

definition exEnv :: "bool \<Rightarrow> string list \<Rightarrow> penv" where
  "exEnv q ws = \<lparr>content = concat ws, words = ws, isQuoted = q, noPrefixWords = ws\<rparr>"

definition exProbe :: "jsval \<Rightarrow> nat slot" where
  "exProbe v = Probe (\<lambda>msg r w. (Inr v, Suc w))"

definition exCommand :: "nat slot list \<Rightarrow> nat Command" where
  "exCommand slots = \<lparr>args = slots, split = PLAIN\<rparr>"

definition exState :: "nat pstate" where
  "exState = \<lparr>processed = [], wordIndex = 0, world = 0, trace = []\<rparr>"

definition exSlots :: "nat slot list" where
  "exSlots =
     [Arg (exArg ''first'' WORD Absent),
      exProbe Undefined,
      Arg (exArg ''rest'' SEPARATE Absent)]"

definition exSeparate :: "nat Argument" where
  "exSeparate = exArg ''n'' SEPARATE Absent"

definition exDigits :: penv where
  "exDigits = exEnv False [''1'', ''2'', ''3'']"

definition exDigitsDone :: "nat pstate" where
  "exDigitsDone =
     \<lparr>processed = [(''n'', Arr [Str ''1'', Str ''2'', Str ''3''])], wordIndex = 1, world = 3,
      trace = [EvDispatch ''n'' SEPARATE 0, EvProcess ''n'' ''1'' [(''n'', Arr [])],
               EvProcess ''n'' ''2'' [(''n'', Arr [Str ''1''])],
               EvProcess ''n'' ''3'' [(''n'', Arr [Str ''1'', Str ''2''])]]\<rparr>"

definition exCounting :: "nat Argument" where
  "exCounting =
     (exArg ''n'' SEPARATE Absent)
       \<lparr>process := (\<lambda>word msg r w.
          (Inr (case map_of r ''n'' of Some (Arr vs) \<Rightarrow> Num (int (length vs)) | _ \<Rightarrow> Null),
           Suc w))\<rparr>"

definition exCountingDone :: "nat pstate" where
  "exCountingDone =
     \<lparr>processed = [(''n'', Arr [Num 0, Num 1, Num 2])], wordIndex = 0, world = 3,
      trace = [EvProcess ''n'' ''1'' [(''n'', Arr [])],
               EvProcess ''n'' ''2'' [(''n'', Arr [Num 0])],
               EvProcess ''n'' ''3'' [(''n'', Arr [Num 0, Num 1])]]\<rparr>"

definition exSlotsDone :: "nat pstate" where
  "exSlotsDone =
     \<lparr>processed = [(''first'', Str ''a ''), (''rest'', Arr [Str ''b '', Str ''c''])],
      wordIndex = 2, world = 6,
      trace =
        [EvSplit ''a b c'', EvAllow ''first'' [], EvDispatch ''first'' WORD 0,
         EvProcess ''first'' ''a '' [], EvProbe 1 [(''first'', Str ''a '')],
         EvAllow ''rest'' [(''first'', Str ''a '')], EvDispatch ''rest'' SEPARATE 1,
         EvProcess ''rest'' ''b '' [(''first'', Str ''a ''), (''rest'', Arr [])],
         EvProcess ''rest'' ''c'' [(''first'', Str ''a ''), (''rest'', Arr [Str ''b ''])]]\<rparr>"

section \<open>Basic facts about calls\<close>

lemma call_cases:
  assumes "call ev f st = (r, st')"
  obtains w' where "f (world st) = (r, w')"
    and "st' = st\<lparr>world := w', trace := trace st @ [ev]\<rparr>"
  using assms by (auto simp: call_def split: prod.splits)

lemma call_eq:
  "f (world st) = (r, w') \<Longrightarrow> call ev f st = (r, st\<lparr>world := w', trace := trace st @ [ev]\<rparr>)"
  by (simp add: call_def)

section \<open>Characters beyond ASCII and inherited separators\<close>

text \<open>
  The letters of the Latin-1 range are lowercased and the no-break space is white
  space, in \<^verbatim>\<open>trim\<close> as in the tokenizer; the scans and the filter see tokens and
  prefix values through both.
\<close>

lemma toLowerCase_latin1:
  "toLowerCase [CHR 0xC9, CHR ''A'', CHR 0xD7, CHR 0xDF, CHR 0xDE]
     = [CHR 0xE9, CHR ''a'', CHR 0xD7, CHR 0xDF, CHR 0xFE]"
  by code_simp

lemma trim_no_break_space:
  "trim [CHR 0xA0, CHR ''a'', CHR '' '', CHR 0xA0] = ''a''"
  by code_simp

lemma plainGo_no_break_space:
  "plainGo [] [CHR ''a'', CHR 0xA0, CHR ''b''] = [[CHR ''a'', CHR 0xA0], ''b'']"
  by code_simp

lemma flagScan_latin1:
  "flagScan (Single [CHR ''-'', CHR ''-'', CHR 0xE9]) False
      [[CHR ''-'', CHR ''-'', CHR 0xC9, CHR 0xA0]] = Inr True"
  by code_simp

lemma noPrefix_latin1:
  "noPrefix [\<lparr>value = [CHR ''-'', CHR ''-'', CHR 0xE9], flag = True\<rparr>]
      [''a'', [CHR ''-'', CHR ''-'', CHR 0xC9]] = [''a'']"
  by code_simp

text \<open>
  A separator that names an inherited property of the table: when the property
  returns a truthy value, \<^verbatim>\<open>parse\<close> throws before any slot is evaluated; when it
  returns a falsy value, the pool is empty.
\<close>

lemma parse_inherited_truthy:
  "parse \<lparr>args = [Arg (exArg ''first'' WORD Absent)], split = SplitInherited (\<lambda>c. Inr True)\<rparr>
      ''a b'' exMessage 0
     = (Inl TypeError, \<lparr>processed = [], wordIndex = 0, world = 0, trace = [EvSplit ''a b'']\<rparr>)"
  by code_simp

lemma parse_inherited_falsy:
  "fst (parse
         \<lparr>args = [Arg (exArg ''first'' WORD Absent)], split = SplitInherited (\<lambda>c. Inr False)\<rparr>
         ''a b'' exMessage 0)
     = Inr [(''first'', Str [])]"
  by code_simp

section \<open>An empty slot list\<close>

text \<open>
  Claim C7.  When the slot list of the command is empty, \<^verbatim>\<open>parse\<close> resolves to the
  empty result mapping for every content and every context, and the tokenizer is
  never invoked: the call leaves no event behind (in particular no \<open>EvSplit\<close>, the
  event of \<^verbatim>\<open>_splitText\<close>) and the outside world is as it was, whatever split
  strategy or split function the command carries.
\<close>

theorem parse_empty_slots:
  assumes "args cmd = []"
  shows "fst (parse cmd content' message w) = Inr []
       \<and> trace (snd (parse cmd content' message w)) = []
       \<and> world (snd (parse cmd content' message w)) = w"
  using assms by (simp add: parse_def)

theorem parse_empty_slots_witness:
  "args \<lparr>args = [], split = SplitFunction (\<lambda>c m w. (Inl TypeError, Suc w))\<rparr> = []
   \<and> fst (parse \<lparr>args = [], split = SplitFunction (\<lambda>c m w. (Inl TypeError, Suc w))\<rparr>
            ''a b'' \<lparr>channel = \<lparr>send = (\<lambda>v w. (Inr (), w))\<rparr>\<rparr> (0::nat)) = Inr []
   \<and> trace (snd (parse \<lparr>args = [], split = SplitFunction (\<lambda>c m w. (Inl TypeError, Suc w))\<rparr>
            ''a b'' \<lparr>channel = \<lparr>send = (\<lambda>v w. (Inr (), w))\<rparr>\<rparr> (0::nat))) = []
   \<and> world (snd (parse \<lparr>args = [], split = SplitFunction (\<lambda>c m w. (Inl TypeError, Suc w))\<rparr>
            ''a b'' \<lparr>channel = \<lparr>send = (\<lambda>v w. (Inr (), w))\<rparr>\<rparr> (0::nat))) = 0"
  using parse_empty_slots
    [of "\<lparr>args = [], split = SplitFunction (\<lambda>c m w. (Inl TypeError, Suc w))\<rparr>"
        "''a b''" "\<lparr>channel = \<lparr>send = (\<lambda>v w. (Inr (), w))\<rparr>\<rparr>" "0::nat"]
  by simp

section \<open>The prefix extractor and the positional filter\<close>

lemma pushPrefix_Inr:
  "pushPrefix a acc = Inr ds \<Longrightarrow> ds = acc @ descriptorsOf a"
  by (auto simp: pushPrefix_def descriptorsOf_def prefixValues_def
           split: if_splits prefixOption.splits)

lemma pushGroup_Inr:
  "pushGroup as acc = Inr ds \<Longrightarrow> ds = acc @ concat (map descriptorsOf as)"
proof (induction as arbitrary: acc)
  case Nil
  then show ?case by simp
next
  case (Cons a as)
  from Cons.prems obtain ds1
    where 1: "pushPrefix a acc = Inr ds1" and 2: "pushGroup as ds1 = Inr ds"
    by (auto split: sum.splits)
  from Cons.IH[OF 2] pushPrefix_Inr[OF 1] show ?case by simp
qed

lemma getPrefixesFrom_Inr:
  "getPrefixesFrom slots acc = Inr ds \<Longrightarrow> ds = acc @ concat (map descriptorsOf (specsOf slots))"
proof (induction slots acc rule: getPrefixesFrom.induct)
  case (1 prefixes)
  then show ?case by simp
next
  case (2 as rest prefixes)
  from "2.prems" obtain ds1 where 1: "pushGroup as prefixes = Inr ds1"
    and r: "getPrefixesFrom rest ds1 = Inr ds"
    by (auto split: sum.splits)
  from "2.IH"[OF 1 r] pushGroup_Inr[OF 1] show ?case by simp
next
  case (3 a rest prefixes)
  from "3.prems" obtain ds1 where 1: "pushPrefix a prefixes = Inr ds1"
    and r: "getPrefixesFrom rest ds1 = Inr ds"
    by (auto split: sum.splits)
  from "3.IH"[OF 1 r] pushPrefix_Inr[OF 1] show ?case by simp
next
  case (4 f rest prefixes)
  then show ?case by simp
qed

lemma getPrefixes_Inr:
  "getPrefixes cmd = Inr ds \<Longrightarrow> ds = concat (map descriptorsOf (specsOf (args cmd)))"
  by (auto simp: getPrefixes_def dest: getPrefixesFrom_Inr)

text \<open>
  Claim C6.  Let \<^verbatim>\<open>_getPrefixes\<close> return the descriptors \<open>prefixes\<close> (it throws when
  a spec of static mode PREFIX or FLAG has no prefix).  Then the descriptors are,
  as a set, one lowercased value per prefix value of every spec whose mode is
  PREFIX or FLAG, the members of alternative groups included, flagged exactly for
  the FLAG specs; and the filtered pool is the token pool, in order, without the
  tokens whose trimmed and lowercased form starts with the value of a non-flag
  descriptor or equals the value of a flag descriptor.  (A spec whose mode is a
  function has no mode before the parse runs and contributes no descriptor.)
\<close>

theorem filtered_pool:
  assumes "getPrefixes cmd = Inr prefixes"
  shows "set prefixes =
           {\<lparr>value = toLowerCase p, flag = matchIs a FLAG\<rparr> | a p.
              a \<in> set (specsOf (args cmd)) \<and> (matchIs a PREFIX \<or> matchIs a FLAG)
              \<and> p \<in> set (prefixValues (prefix a))}
       \<and> noPrefix prefixes tokens =
           filter (\<lambda>t. \<not> (\<exists>d \<in> set prefixes.
                     if flag d then toLowerCase (trim t) = value d
                     else startsWith (toLowerCase (trim t)) (value d))) tokens"
proof -
  have ds: "prefixes = concat (map descriptorsOf (specsOf (args cmd)))"
    using assms by (rule getPrefixes_Inr)
  have "set prefixes =
           {\<lparr>value = toLowerCase p, flag = matchIs a FLAG\<rparr> | a p.
              a \<in> set (specsOf (args cmd)) \<and> (matchIs a PREFIX \<or> matchIs a FLAG)
              \<and> p \<in> set (prefixValues (prefix a))}"
    unfolding ds by (auto simp: descriptorsOf_def split: if_splits)
  moreover have "noPrefix prefixes tokens =
           filter (\<lambda>t. \<not> (\<exists>d \<in> set prefixes.
                     if flag d then toLowerCase (trim t) = value d
                     else startsWith (toLowerCase (trim t)) (value d))) tokens"
    unfolding noPrefix_def by (rule filter_cong) (auto simp: list_ex_iff Let_def)
  ultimately show ?thesis by simp
qed

theorem filtered_pool_witness:
  "getPrefixes
     \<lparr>args =
        [Arg \<lparr>id' = ''name'', match = Static PREFIX, index = None, limit = Infinity,
              prefix = Single ''Name:'', allow = (\<lambda>m r w. (Inr True, w)),
              default' = (\<lambda>m r w. (Inr Null, w)),
              process = (\<lambda>s m r w. (Inr (Str s), w))\<rparr>,
         Group
           [\<lparr>id' = ''v'', match = Static FLAG, index = None, limit = Infinity,
             prefix = Multiple [''-v'', ''--V''], allow = (\<lambda>m r w. (Inr True, w)),
             default' = (\<lambda>m r w. (Inr Null, w)),
             process = (\<lambda>s m r w. (Inr (Str s), w))\<rparr>,
            \<lparr>id' = ''w'', match = Static WORD, index = None, limit = Infinity,
             prefix = Single ''b'', allow = (\<lambda>m r w. (Inr True, w)),
             default' = (\<lambda>m r w. (Inr Null, w)),
             process = (\<lambda>s m r w. (Inr (Str s), w))\<rparr>]],
      split = (PLAIN :: unit splitOption)\<rparr>
   = Inr [\<lparr>value = ''name:'', flag = False\<rparr>, \<lparr>value = ''-v'', flag = True\<rparr>,
          \<lparr>value = ''--v'', flag = True\<rparr>]
   \<and> noPrefix [\<lparr>value = ''name:'', flag = False\<rparr>, \<lparr>value = ''-v'', flag = True\<rparr>,
          \<lparr>value = ''--v'', flag = True\<rparr>] [''a '', '' NAME:x '', ''-V '', ''-vv'', ''b'']
     = filter (\<lambda>t. \<not> (\<exists>d \<in> set [\<lparr>value = ''name:'', flag = False\<rparr>,
                         \<lparr>value = ''-v'', flag = True\<rparr>, \<lparr>value = ''--v'', flag = True\<rparr>].
                     if flag d then toLowerCase (trim t) = value d
                     else startsWith (toLowerCase (trim t)) (value d)))
         [''a '', '' NAME:x '', ''-V '', ''-vv'', ''b'']
   \<and> noPrefix [\<lparr>value = ''name:'', flag = False\<rparr>, \<lparr>value = ''-v'', flag = True\<rparr>,
          \<lparr>value = ''--v'', flag = True\<rparr>] [''a '', '' NAME:x '', ''-V '', ''-vv'', ''b'']
     = [''a '', ''-vv'', ''b'']"
  (is "?H \<and> ?C \<and> ?V")
proof -
  have h: ?H by code_simp
  have v: ?V by code_simp
  from filtered_pool[OF h, of "[''a '', '' NAME:x '', ''-V '', ''-vv'', ''b'']"]
  have c: ?C by (rule conjunct2)
  from h c v show ?thesis by (intro conjI)
qed

section \<open>FLAG mode\<close>

lemma flagScan_Inr:
  "flagScan pre acc ws = Inr found \<Longrightarrow>
   found \<longleftrightarrow> acc \<or> (\<exists>t \<in> set ws. \<exists>p \<in> set (prefixValues pre).
                       toLowerCase (trim t) = toLowerCase p)"
proof (induction ws arbitrary: acc)
  case Nil
  then show ?case by simp
next
  case (Cons w ws)
  show ?case
  proof (cases pre)
    case Absent
    with Cons.prems show ?thesis by simp
  next
    case (Single p)
    show ?thesis
    proof (cases "toLowerCase (trim w) = toLowerCase p")
      case True
      with Cons.prems Single show ?thesis by (simp add: prefixValues_def)
    next
      case False
      with Cons.prems Single have "flagScan pre acc ws = Inr found" by simp
      from Cons.IH[OF this] False Single show ?thesis by (simp add: prefixValues_def)
    qed
  next
    case (Multiple ps)
    with Cons.prems
    have "flagScan pre (acc \<or> list_ex (\<lambda>p. toLowerCase (trim w) = toLowerCase p) ps) ws = Inr found"
      by (simp add: Let_def)
    from Cons.IH[OF this] Multiple show ?thesis
      by (auto simp: prefixValues_def list_ex_iff)
  qed
qed

text \<open>
  Claim C5, as the code has it.  A FLAG-mode spec whose evaluator \<^verbatim>\<open>parseFuncs\<close>
  has built: \<open>found\<close> holds exactly when some token of the unfiltered pool, trimmed
  and lowercased, equals the lowercased form of a prefix value of the spec (the
  order of the scan does not show in a truth value).  When \<^verbatim>\<open>default\<close>
  yields \<open>d\<close>, the evaluator computes \<open>inverse\<close> as the negation of \<open>d\<close> and
  resolves to \<open>found\<close> if \<open>inverse\<close> holds and to its negation otherwise: with
  default \<^verbatim>\<open>false\<close> the result is \<open>found\<close>, with default \<^verbatim>\<open>true\<close> it is
  \<open>\<not> found\<close>.  The only foreign call is the one of \<^verbatim>\<open>default\<close>.
\<close>

theorem flag_result:
  assumes "parseFuncs cmd env FLAG arg idx = Inr processFunc"
    and "default' arg msg (processed st) (world st) = (Inr d, w')"
  shows "processFunc msg st =
           (let found = (\<exists>t \<in> set (words env). \<exists>p \<in> set (prefixValues (prefix arg)).
                           toLowerCase (trim t) = toLowerCase p);
                inverse = \<not> truthy d
            in (Inr (Bool (if inverse then found else \<not> found)),
                st\<lparr>world := w', trace := trace st @ [EvDefault (id' arg) (processed st)]\<rparr>))"
proof -
  from assms(1) obtain flagFound
    where scan: "flagScan (prefix arg) False (rev (words env)) = Inr flagFound"
      and pf: "processFunc = flagEval arg flagFound"
    by (auto simp: parseFuncs_def parseFLAG_def split: sum.splits)
  from flagScan_Inr[OF scan]
  have found: "flagFound \<longleftrightarrow> (\<exists>t \<in> set (words env). \<exists>p \<in> set (prefixValues (prefix arg)).
                           toLowerCase (trim t) = toLowerCase p)"
    by simp
  show ?thesis
    unfolding pf flagEval_def found Let_def
    using assms(2) by (simp add: call_def)
qed

theorem flag_result_witness:
  "parseFuncs \<lparr>args = [], split = PLAIN\<rparr>
      \<lparr>content = ''x --VERBOSE y'', words = [''x '', ''--VERBOSE '', ''y''], isQuoted = False,
       noPrefixWords = [''x '', ''y'']\<rparr> FLAG
      \<lparr>id' = ''verbose'', match = Static FLAG, index = None, limit = Infinity,
       prefix = Single ''--verbose'', allow = (\<lambda>m r w. (Inr True, w)),
       default' = (\<lambda>m r w. (Inr (Bool False), Suc w)),
       process = (\<lambda>s m r w. (Inr (Str s), w))\<rparr> 0
    = Inr (flagEval
      \<lparr>id' = ''verbose'', match = Static FLAG, index = None, limit = Infinity,
       prefix = Single ''--verbose'', allow = (\<lambda>m r w. (Inr True, w)),
       default' = (\<lambda>m r w. (Inr (Bool False), Suc w)),
       process = (\<lambda>s m r w. (Inr (Str s), w))\<rparr> True)
   \<and> flagEval
      \<lparr>id' = ''verbose'', match = Static FLAG, index = None, limit = Infinity,
       prefix = Single ''--verbose'', allow = (\<lambda>m r w. (Inr True, w)),
       default' = (\<lambda>m r w. (Inr (Bool False), Suc w)),
       process = (\<lambda>s m r w. (Inr (Str s), w))\<rparr> True
      \<lparr>channel = \<lparr>send = (\<lambda>v w. (Inr (), w))\<rparr>\<rparr>
      \<lparr>processed = [], wordIndex = 0, world = (0::nat), trace = []\<rparr>
    = (Inr (Bool True),
       \<lparr>processed = [], wordIndex = 0, world = 1, trace = [EvDefault ''verbose'' []]\<rparr>)"
  (is "?H \<and> ?C")
proof -
  have scan: "flagScan (Single ''--verbose'') False [''y'', ''--VERBOSE '', ''x ''] = Inr True"
    by code_simp
  have h: ?H by (simp add: parseFuncs_def parseFLAG_def scan del: flagScan.simps)
  have found: "\<exists>t \<in> set [''x '', ''--VERBOSE '', ''y'']. \<exists>p \<in> set (prefixValues (Single ''--verbose'')).
                 toLowerCase (trim t) = toLowerCase p"
    by code_simp
  from flag_result[OF h, of "\<lparr>channel = \<lparr>send = (\<lambda>v w. (Inr (), w))\<rparr>\<rparr>"
      "\<lparr>processed = [], wordIndex = 0, world = (0::nat), trace = []\<rparr>" "Bool False" "1"] found
  have c: ?C by simp
  from h c show ?thesis by (intro conjI)
qed

text \<open>
  Claim C5 as the specification states it fails for a prefix value that is not
  written in lower case: with the token \<^verbatim>\<open>--verbose\<close>, the prefix value
  \<^verbatim>\<open>--Verbose\<close> and a \<^verbatim>\<open>default\<close> that yields \<^verbatim>\<open>false\<close>, the code compares the token
  with the lowercased value and resolves to \<^verbatim>\<open>true\<close>; no token equals the value as
  it is written, so the specification resolves to \<^verbatim>\<open>false\<close>.
\<close>

theorem flag_result_counterexample:
  "(case parseFuncs (exCommand []) (exEnv False [''--verbose '']) FLAG
           (exArg ''verbose'' FLAG (Single ''--Verbose'')) 0 of
      Inl e \<Rightarrow> Inl e
    | Inr processFunc \<Rightarrow> fst (processFunc exMessage exState)) = Inr (Bool True)
   \<and> claimedFlagResult (words (exEnv False [''--verbose '']))
        (prefixValues (prefix (exArg ''verbose'' FLAG (Single ''--Verbose'')))) (Bool False)
      = False"
proof -
  have scan: "flagScan (Single ''--Verbose'') False (rev [''--verbose '']) = Inr True"
    by code_simp
  have 1: "(case parseFuncs (exCommand []) (exEnv False [''--verbose '']) FLAG
           (exArg ''verbose'' FLAG (Single ''--Verbose'')) 0 of
      Inl e \<Rightarrow> Inl e
    | Inr processFunc \<Rightarrow> fst (processFunc exMessage exState)) = Inr (Bool True)"
    using scan
    by (simp add: parseFuncs_def parseFLAG_def flagEval_def call_def exEnv_def exArg_def
          exState_def del: flagScan.simps)
  have 2: "claimedFlagResult (words (exEnv False [''--verbose '']))
        (prefixValues (prefix (exArg ''verbose'' FLAG (Single ''--Verbose'')))) (Bool False)
      = False"
    by code_simp
  from 1 2 show ?thesis by (intro conjI)
qed

section \<open>PREFIX mode\<close>

lemma prefixScan_firstHit:
  "pre \<noteq> Absent \<Longrightarrow> prefixScan pre ws = Inr (firstHit (prefixValues pre) ws)"
proof (induction ws)
  case Nil
  then show ?case by simp
next
  case (Cons w ws)
  then show ?case
    by (cases pre) (auto simp: prefixValues_def Let_def split: option.splits)
qed

lemma firstHit_Some:
  "firstHit vs ws = Some (v, t) \<Longrightarrow> v \<in> set vs \<and> startsWith t (toLowerCase v)"
proof (induction ws)
  case Nil
  then show ?case by simp
next
  case (Cons w ws)
  then show ?case
    by (auto split: option.splits dest: find_Some_iff[THEN iffD1])
qed

lemma replaceFirst_startsWith:
  "startsWith t p \<Longrightarrow> replaceFirst p t = drop (length p) t"
  by (cases t) (auto simp: startsWith_def)

text \<open>
  Claim C2, as the code has it.  For a PREFIX-mode spec whose prefix values are
  written in lower case, the scan is the one of the specification (unfiltered
  pool, last token first, tokens trimmed and lowercased, values in list order
  within a token).  On the first hit the matched prefix is stripped from the
  trimmed, lowercased token and the remainder is fed to the resolver as it is,
  not trimmed; only when \<open>isQuoted\<close> holds and the trimmed remainder is a double
  quote, at least one character and a double quote is the remainder trimmed and
  the two quotes removed.  After a hit on an empty prefix value the token is fed
  unchanged, and without a hit the empty string is fed.
\<close>

theorem prefix_word:
  assumes "prefix arg \<noteq> Absent"
    and "\<forall>p \<in> set (prefixValues (prefix arg)). toLowerCase p = p"
  shows "parseFuncs cmd env PREFIX arg idx =
           Inr (bindProcess arg
             (case firstHit (prefixValues (prefix arg)) (rev (words env)) of
                None \<Rightarrow> []
              | Some (p, t) \<Rightarrow>
                  if p = [] then t
                  else if isQuoted env \<and> quotedRun (trim (drop (length p) t))
                       then sliceInner (trim (drop (length p) t))
                       else drop (length p) t))"
proof (cases "firstHit (prefixValues (prefix arg)) (rev (words env))")
  case None
  with assms(1) show ?thesis
    by (simp add: parseFuncs_def wordPREFIX_def prefixScan_firstHit)
next
  case (Some pt)
  obtain p t where pt: "pt = (p, t)" by (cases pt)
  from firstHit_Some[OF Some[unfolded pt]] assms(2)
  have sw: "startsWith t p" by auto
  then have ne: "p \<noteq> [] \<Longrightarrow> t \<noteq> []" by (auto simp: startsWith_def)
  from assms(1) Some pt sw ne show ?thesis
    by (auto simp add: parseFuncs_def wordPREFIX_def prefixScan_firstHit unquote_def
             replaceFirst_startsWith)
qed

theorem prefix_word_witness:
  "prefix (exArg ''n'' PREFIX (Multiple [''name:'', ''n:''])) \<noteq> Absent
   \<and> list_all (\<lambda>p. toLowerCase p = p)
       (prefixValues (prefix (exArg ''n'' PREFIX (Multiple [''name:'', ''n:'']))))
   \<and> parseFuncs \<lparr>args = [], split = QUOTED\<rparr>
        (exEnv True [''n:x '', [CHR ''N'', CHR '':'', CHR 0x22, CHR ''A'', CHR '' '', CHR ''b'',
                       CHR 0x22, CHR '' ''], ''y''])
        PREFIX (exArg ''n'' PREFIX (Multiple [''name:'', ''n:''])) 0
     = Inr (bindProcess (exArg ''n'' PREFIX (Multiple [''name:'', ''n:''])) ''a b'')"
  (is "?H1 \<and> ?H2 \<and> ?C")
proof -
  have h1: ?H1 by code_simp
  have h2: ?H2 by code_simp
  have w: "(case firstHit (prefixValues (prefix (exArg ''n'' PREFIX (Multiple [''name:'', ''n:'']))))
                  (rev (words (exEnv True [''n:x '', [CHR ''N'', CHR '':'', CHR 0x22, CHR ''A'',
                       CHR '' '', CHR ''b'', CHR 0x22, CHR '' ''], ''y'']))) of
                None \<Rightarrow> []
              | Some (p, t) \<Rightarrow>
                  if p = [] then t
                  else if isQuoted (exEnv True [''n:x '', [CHR ''N'', CHR '':'', CHR 0x22, CHR ''A'',
                       CHR '' '', CHR ''b'', CHR 0x22, CHR '' ''], ''y''])
                        \<and> quotedRun (trim (drop (length p) t))
                       then sliceInner (trim (drop (length p) t))
                       else drop (length p) t) = ''a b''"
    by code_simp
  from h2 have h2': "\<forall>p \<in> set (prefixValues (prefix (exArg ''n'' PREFIX (Multiple [''name:'', ''n:''])))).
      toLowerCase p = p"
    by (simp only: list_all_iff)
  from prefix_word[OF h1 h2', of "\<lparr>args = [], split = QUOTED\<rparr>"
      "exEnv True [''n:x '', [CHR ''N'', CHR '':'', CHR 0x22, CHR ''A'', CHR '' '', CHR ''b'',
                       CHR 0x22, CHR '' ''], ''y'']" 0]
  have c: ?C unfolding w .
  from h1 h2 c show ?thesis by (intro conjI)
qed

text \<open>
  Claim C2 as the specification states it fails: with \<open>isQuoted\<close> set, the single
  token \<^verbatim>\<open>n: foo\<close> and the prefix \<^verbatim>\<open>n:\<close>, the specification feeds \<^verbatim>\<open>foo\<close> to the
  resolver, and the code feeds the untrimmed remainder, with its leading space.
\<close>

theorem prefix_word_counterexample:
  "wordPREFIX (exEnv True [''n: foo'']) (exArg ''n'' PREFIX (Single ''n:'')) = Inr '' foo''
   \<and> claimedPrefixWord (isQuoted (exEnv True [''n: foo''])) (words (exEnv True [''n: foo'']))
        (prefixValues (prefix (exArg ''n'' PREFIX (Single ''n:'')))) = ''foo''
   \<and> parseFuncs \<lparr>args = [], split = PLAIN\<rparr> (exEnv True [''n: foo'']) PREFIX
        (exArg ''n'' PREFIX (Single ''n:'')) 0
      = Inr (bindProcess (exArg ''n'' PREFIX (Single ''n:'')) '' foo'')"
proof -
  have 1: "wordPREFIX (exEnv True [''n: foo'']) (exArg ''n'' PREFIX (Single ''n:'')) = Inr '' foo''"
    by code_simp
  have 2: "claimedPrefixWord (isQuoted (exEnv True [''n: foo''])) (words (exEnv True [''n: foo'']))
        (prefixValues (prefix (exArg ''n'' PREFIX (Single ''n:'')))) = ''foo''"
    by code_simp
  have 3: "parseFuncs \<lparr>args = [], split = PLAIN\<rparr> (exEnv True [''n: foo'']) PREFIX
        (exArg ''n'' PREFIX (Single ''n:'')) 0
      = Inr (bindProcess (exArg ''n'' PREFIX (Single ''n:'')) '' foo'')"
    by (simp add: parseFuncs_def 1)
  from 1 2 3 show ?thesis by (intro conjI)
qed

text \<open>
  What the corrected claim leaves out: a prefix value with an upper-case letter,
  of ASCII or beyond.  The test is made on the lowercased value, but \<^verbatim>\<open>replace\<close> is
  handed the value as written, which does not occur in the lowercased token;
  nothing is stripped.
\<close>

lemma prefix_mixed_case_not_stripped:
  "wordPREFIX (exEnv False [''Name:Bob'']) (exArg ''n'' PREFIX (Single ''Name:''))
     = Inr ''name:bob''"
  by code_simp

lemma prefix_latin1_not_stripped:
  "wordPREFIX (exEnv False [[CHR 0xC9, CHR '':'', CHR ''x'']])
      (exArg ''n'' PREFIX (Single [CHR 0xC9, CHR '':''])) = Inr [CHR 0xE9, CHR '':'', CHR ''x'']
   \<and> toLowerCase [CHR 0xC9, CHR '':''] \<noteq> [CHR 0xC9, CHR '':'']"
  by code_simp

section \<open>Cancellation probes\<close>

lemma parse_process_Probe:
  assumes "i < length (args cmd)" and "args cmd ! i = Probe f"
    and "f message (processed st) (world st) = (Inr cancel, w1)"
  shows "parse_process cmd env message i st =
           (if cancel \<noteq> Null \<and> cancel \<noteq> Undefined \<and> cancel \<noteq> Bool False then
              (if truthy cancel \<and> cancel \<noteq> Bool True then
                 (case call (EvSend cancel) (send (channel message) cancel)
                         (st\<lparr>world := w1, trace := trace st @ [EvProbe i (processed st)]\<rparr>) of
                    (Inl e, st2) \<Rightarrow> (Inl e, st2)
                  | (Inr u, st2) \<Rightarrow> (Inl COMMAND_CANCELLED, st2))
               else (Inl COMMAND_CANCELLED,
                     st\<lparr>world := w1, trace := trace st @ [EvProbe i (processed st)]\<rparr>))
            else parse_process cmd env message (i + 1)
                   (st\<lparr>world := w1, trace := trace st @ [EvProbe i (processed st)]\<rparr>))"
  using assms by (subst parse_process.simps) (simp add: call_def)

text \<open>
  Claim C1.  Let slot \<open>i\<close> be a cancellation probe that is reached in the state
  \<open>st\<close> and returns \<open>cancel\<close>.
  \<^item> If \<open>cancel\<close> is \<^verbatim>\<open>undefined\<close>, \<^verbatim>\<open>null\<close> or \<^verbatim>\<open>false\<close>, evaluation goes on with slot
    \<open>i + 1\<close> in a state that differs from \<open>st\<close> only by the probe's own call: the
    cursor and the result mapping are as before.
  \<^item> If it is \<^verbatim>\<open>true\<close>, \<^verbatim>\<open>parse\<close> rejects with the cancellation sentinel; nothing
    is sent and nothing else is called.
  \<^item> If it is any other truthy value, that value is sent to the channel of the
    context exactly once and nothing else is called; once the dispatch has
    completed, \<^verbatim>\<open>parse\<close> rejects with the cancellation sentinel.
  The events after the probe's are none, or the one \<open>EvSend\<close>: no later slot is
  evaluated in an abort.
\<close>

theorem probe_step:
  assumes "i < length (args cmd)" and "args cmd ! i = Probe f"
    and "f message (processed st) (world st) = (Inr cancel, w1)"
  shows "(cancel \<in> {Undefined, Null, Bool False} \<longrightarrow>
            parse_process cmd env message i st =
            parse_process cmd env message (i + 1)
              (st\<lparr>world := w1, trace := trace st @ [EvProbe i (processed st)]\<rparr>))
       \<and> (cancel = Bool True \<longrightarrow>
            parse_process cmd env message i st =
            (Inl COMMAND_CANCELLED,
             st\<lparr>world := w1, trace := trace st @ [EvProbe i (processed st)]\<rparr>))
       \<and> (truthy cancel \<and> cancel \<noteq> Bool True \<longrightarrow>
            trace (snd (parse_process cmd env message i st)) =
              trace st @ [EvProbe i (processed st), EvSend cancel]
            \<and> (\<forall>u w2. send (channel message) cancel w1 = (Inr u, w2) \<longrightarrow>
                 parse_process cmd env message i st =
                 (Inl COMMAND_CANCELLED,
                  st\<lparr>world := w2,
                     trace := trace st @ [EvProbe i (processed st), EvSend cancel]\<rparr>)))"
proof -
  let ?st1 = "st\<lparr>world := w1, trace := trace st @ [EvProbe i (processed st)]\<rparr>"
  note unfold = parse_process_Probe[OF assms, of env]
  have go_on: "parse_process cmd env message i st = parse_process cmd env message (i + 1) ?st1"
    if "cancel \<in> {Undefined, Null, Bool False}"
    using that unfold by auto
  have silent: "parse_process cmd env message i st = (Inl COMMAND_CANCELLED, ?st1)"
    if "cancel = Bool True"
    using that unfold by simp
  have sent: "trace (snd (parse_process cmd env message i st)) =
                trace st @ [EvProbe i (processed st), EvSend cancel]"
    if "truthy cancel \<and> cancel \<noteq> Bool True"
  proof -
    obtain r w2 where "send (channel message) cancel w1 = (r, w2)"
      by (cases "send (channel message) cancel w1")
    with that unfold show ?thesis by (cases r) (auto simp: call_def)
  qed
  have abort: "parse_process cmd env message i st =
                 (Inl COMMAND_CANCELLED,
                  st\<lparr>world := w2, trace := trace st @ [EvProbe i (processed st), EvSend cancel]\<rparr>)"
    if "truthy cancel \<and> cancel \<noteq> Bool True"
      and "send (channel message) cancel w1 = (Inr u, w2)" for u w2
    using that unfold by (auto simp: call_def)
  from go_on silent sent abort show ?thesis by blast
qed

theorem probe_step_witness:
  "parse_process (exCommand [exProbe Undefined, Arg (exArg ''a'' NONE Absent)])
       (exEnv False []) exMessage 0 exState
     = parse_process (exCommand [exProbe Undefined, Arg (exArg ''a'' NONE Absent)])
         (exEnv False []) exMessage (0 + 1)
         (exState\<lparr>world := 1, trace := trace exState @ [EvProbe 0 (processed exState)]\<rparr>)
  \<and> parse_process (exCommand [exProbe (Bool True), Arg (exArg ''a'' NONE Absent)])
       (exEnv False []) exMessage 0 exState
     = (Inl COMMAND_CANCELLED,
        exState\<lparr>world := 1, trace := trace exState @ [EvProbe 0 (processed exState)]\<rparr>)
  \<and> parse_process (exCommand [exProbe (Str ''aborted''), Arg (exArg ''a'' NONE Absent)])
       (exEnv False []) exMessage 0 exState
     = (Inl COMMAND_CANCELLED,
        exState\<lparr>world := 2,
          trace := trace exState @ [EvProbe 0 (processed exState), EvSend (Str ''aborted'')]\<rparr>)"
proof -
  have a: "0 < length (args (exCommand [exProbe v, Arg (exArg ''a'' NONE Absent)]))" for v
    by (simp add: exCommand_def)
  have b: "args (exCommand [exProbe v, Arg (exArg ''a'' NONE Absent)]) ! 0
             = Probe (\<lambda>msg r w. (Inr v, Suc w))" for v
    by (simp add: exCommand_def exProbe_def)
  have c: "(\<lambda>msg r w. (Inr v, Suc w)) exMessage (processed exState) (world exState)
             = (Inr v, 1)" for v :: jsval
    by (simp add: exState_def)
  have d: "send (channel exMessage) v 1 = (Inr (), 2)" for v
    by (simp add: exMessage_def)
  from probe_step[OF a b c, of Undefined "exEnv False []"]
       probe_step[OF a b c, of "Bool True" "exEnv False []"]
       probe_step[OF a b c, of "Str ''aborted''" "exEnv False []"] d
  show ?thesis by simp
qed

text \<open>
  Claim C9.  Let the probe at slot \<open>i\<close> return a value that is neither \<^verbatim>\<open>null\<close> nor
  \<^verbatim>\<open>undefined\<close> nor \<^verbatim>\<open>false\<close>; falsy values such as \<^verbatim>\<open>0\<close>, \<^verbatim>\<open>NaN\<close> and the empty
  string are among them.  Then no later slot is evaluated, and the value is sent to
  the channel exactly when it is truthy and not \<^verbatim>\<open>true\<close> (whatever becomes of
  the dispatch).  A falsy value or \<^verbatim>\<open>true\<close> aborts silently: \<^verbatim>\<open>parse\<close> rejects with
  the cancellation sentinel and the probe's call is the last one.  After a
  dispatch that has completed, \<^verbatim>\<open>parse\<close> rejects with the cancellation sentinel
  as well.
\<close>

theorem probe_abort:
  assumes "i < length (args cmd)" and "args cmd ! i = Probe f"
    and "f message (processed st) (world st) = (Inr cancel, w1)"
    and "cancel \<noteq> Null" and "cancel \<noteq> Undefined" and "cancel \<noteq> Bool False"
  shows "trace (snd (parse_process cmd env message i st)) =
           trace st @ EvProbe i (processed st) #
             (if truthy cancel \<and> cancel \<noteq> Bool True then [EvSend cancel] else [])
       \<and> (\<not> truthy cancel \<or> cancel = Bool True \<longrightarrow>
            parse_process cmd env message i st =
            (Inl COMMAND_CANCELLED,
             st\<lparr>world := w1, trace := trace st @ [EvProbe i (processed st)]\<rparr>))
       \<and> (truthy cancel \<and> cancel \<noteq> Bool True \<longrightarrow>
            (\<forall>u w2. send (channel message) cancel w1 = (Inr u, w2) \<longrightarrow>
               parse_process cmd env message i st =
               (Inl COMMAND_CANCELLED,
                st\<lparr>world := w2,
                   trace := trace st @ [EvProbe i (processed st), EvSend cancel]\<rparr>)))"
proof -
  let ?st1 = "st\<lparr>world := w1, trace := trace st @ [EvProbe i (processed st)]\<rparr>"
  from assms(4-6) parse_process_Probe[OF assms(1-3), of env]
  have unfold: "parse_process cmd env message i st =
           (if truthy cancel \<and> cancel \<noteq> Bool True then
              (case call (EvSend cancel) (send (channel message) cancel) ?st1 of
                 (Inl e, st2) \<Rightarrow> (Inl e, st2)
               | (Inr u, st2) \<Rightarrow> (Inl COMMAND_CANCELLED, st2))
            else (Inl COMMAND_CANCELLED, ?st1))"
    by simp
  obtain r w2 where snd: "send (channel message) cancel w1 = (r, w2)"
    by (cases "send (channel message) cancel w1")
  have events: "trace (snd (parse_process cmd env message i st)) =
           trace st @ EvProbe i (processed st) #
             (if truthy cancel \<and> cancel \<noteq> Bool True then [EvSend cancel] else [])"
    unfolding unfold using snd by (cases r) (auto simp: call_def)
  have silent: "parse_process cmd env message i st = (Inl COMMAND_CANCELLED, ?st1)"
    if "\<not> truthy cancel \<or> cancel = Bool True"
    unfolding unfold using that by auto
  have abort: "parse_process cmd env message i st =
                 (Inl COMMAND_CANCELLED,
                  st\<lparr>world := w2', trace := trace st @ [EvProbe i (processed st), EvSend cancel]\<rparr>)"
    if "truthy cancel \<and> cancel \<noteq> Bool True"
      and "send (channel message) cancel w1 = (Inr u, w2')" for u w2'
    unfolding unfold using that by (auto simp: call_def)
  from events silent abort show ?thesis by blast
qed

theorem probe_abort_witness:
  "parse_process (exCommand [exProbe (Num 0), Arg (exArg ''a'' NONE Absent)])
       (exEnv False []) exMessage 0 exState
     = (Inl COMMAND_CANCELLED,
        exState\<lparr>world := 1, trace := trace exState @ [EvProbe 0 (processed exState)]\<rparr>)
  \<and> parse_process (exCommand [exProbe NaN, Arg (exArg ''a'' NONE Absent)])
       (exEnv False []) exMessage 0 exState
     = (Inl COMMAND_CANCELLED,
        exState\<lparr>world := 1, trace := trace exState @ [EvProbe 0 (processed exState)]\<rparr>)
  \<and> parse_process (exCommand [exProbe (Str []), Arg (exArg ''a'' NONE Absent)])
       (exEnv False []) exMessage 0 exState
     = (Inl COMMAND_CANCELLED,
        exState\<lparr>world := 1, trace := trace exState @ [EvProbe 0 (processed exState)]\<rparr>)
  \<and> parse_process (exCommand [exProbe (Num 7), Arg (exArg ''a'' NONE Absent)])
       (exEnv False []) exMessage 0 exState
     = (Inl COMMAND_CANCELLED,
        exState\<lparr>world := 2,
          trace := trace exState @ [EvProbe 0 (processed exState), EvSend (Num 7)]\<rparr>)"
proof -
  have a: "0 < length (args (exCommand [exProbe v, Arg (exArg ''a'' NONE Absent)]))" for v
    by (simp add: exCommand_def)
  have b: "args (exCommand [exProbe v, Arg (exArg ''a'' NONE Absent)]) ! 0
             = Probe (\<lambda>msg r w. (Inr v, Suc w))" for v
    by (simp add: exCommand_def exProbe_def)
  have c: "(\<lambda>msg r w. (Inr v, Suc w)) exMessage (processed exState) (world exState)
             = (Inr v, 1)" for v :: jsval
    by (simp add: exState_def)
  have d: "send (channel exMessage) v 1 = (Inr (), 2)" for v
    by (simp add: exMessage_def)
  from probe_abort[OF a b c, of "Num 0" "exEnv False []"]
       probe_abort[OF a b c, of NaN "exEnv False []"]
       probe_abort[OF a b c, of "Str []" "exEnv False []"]
       probe_abort[OF a b c, of "Num 7" "exEnv False []"] d
  show ?thesis by simp
qed

text \<open>
  What the two claims leave open: a dispatch that fails.  Its failure is what
  \<^verbatim>\<open>parse\<close> rejects with, since the \<^verbatim>\<open>throw\<close> of the sentinel is not reached.
\<close>

lemma probe_send_failure:
  assumes "i < length (args cmd)" and "args cmd ! i = Probe f"
    and "f message (processed st) (world st) = (Inr cancel, w1)"
    and "truthy cancel" and "cancel \<noteq> Bool True"
    and "send (channel message) cancel w1 = (Inl e, w2)"
  shows "parse_process cmd env message i st =
           (Inl e, st\<lparr>world := w2,
                      trace := trace st @ [EvProbe i (processed st), EvSend cancel]\<rparr>)"
  using assms(4-6) by (auto simp: parse_process_Probe[OF assms(1-3)] call_def)

section \<open>The positional cursor\<close>

lemma tracks_append:
  "tracks k (es @ es') \<longleftrightarrow> tracks k es \<and> tracks (k + length (filter positional es)) es'"
  by (induction k es rule: tracks.induct) auto

lemma tracks_nth:
  "tracks k es \<Longrightarrow> j < length es \<Longrightarrow> es ! j = EvDispatch a m c
     \<Longrightarrow> c = k + length (filter positional (take j es))"
  by (induction k es arbitrary: j rule: tracks.induct) (auto simp: nth_Cons split: nat.splits)

lemma advances_refl [simp]: "advances st st"
  by (simp add: advances_def)

lemma advances_trans: "advances st st1 \<Longrightarrow> advances st1 st2 \<Longrightarrow> advances st st2"
  unfolding advances_def
  by (elim exE conjE, rule_tac x = "new @ newa" in exI) (simp add: tracks_append)

lemma advances_processed [simp]:
  "advances st (st'\<lparr>processed := p\<rparr>) = advances st st'"
  "advances (st\<lparr>processed := p\<rparr>) st' = advances st st'"
  by (simp_all add: advances_def)

lemma advances_call:
  "call ev f st = (r, st') \<Longrightarrow> \<not> positional ev \<Longrightarrow> (\<And>a m c. ev \<noteq> EvDispatch a m c)
     \<Longrightarrow> advances st st'"
  by (cases ev) (auto simp: call_def advances_def split: prod.splits)

lemma advances_bindProcess:
  "bindProcess arg word msg st = (r, st') \<Longrightarrow> advances st st'"
  unfolding bindProcess_def by (erule advances_call) simp_all

lemma advances_separateLoop:
  "separateLoop arg msg ws res st = (r, st') \<Longrightarrow> advances st st'"
proof (induction ws arbitrary: res st)
  case Nil
  then show ?case by simp
next
  case (Cons w ws)
  obtain r1 st1 where c: "call (EvProcess (id' arg) w (processed st))
                (process arg w msg (processed st)) st = (r1, st1)"
    by (cases "call (EvProcess (id' arg) w (processed st))
                (process arg w msg (processed st)) st")
  have 1: "advances st st1" by (rule advances_call[OF c]) simp_all
  show ?case
  proof (cases r1)
    case (Inl e)
    with Cons.prems c 1 show ?thesis by simp
  next
    case (Inr v)
    with Cons.prems c
    have "separateLoop arg msg ws (res @ [v])
            (st1\<lparr>processed := AList.update (id' arg) (Arr (res @ [v])) (processed st1)\<rparr>) = (r, st')"
      by simp
    from Cons.IH[OF this] 1 show ?thesis by (auto intro: advances_trans)
  qed
qed

lemma advances_flagEval:
  "flagEval arg found msg st = (r, st') \<Longrightarrow> advances st st'"
  unfolding flagEval_def
  by (auto split: prod.splits sum.splits elim!: advances_call)

lemma advances_processFunc:
  assumes "parseFuncs cmd env m arg idx = Inr pf" and "pf msg st = (r, st')"
  shows "advances st st'"
proof (cases m)
  case SEPARATE
  with assms show ?thesis
    by (auto simp: parseFuncs_def parseSEPARATE_def Let_def split: if_splits
             dest: advances_bindProcess dest!: advances_separateLoop)
next
  case FLAG
  with assms show ?thesis
    by (auto simp: parseFuncs_def parseFLAG_def split: sum.splits dest: advances_flagEval)
qed (use assms in \<open>auto simp: parseFuncs_def split: sum.splits dest: advances_bindProcess\<close>)

lemma advances_resolveMatch:
  "resolveMatch msg arg st = (r, st') \<Longrightarrow> advances st st'"
  unfolding resolveMatch_def
  by (auto split: matchOption.splits elim!: advances_call)

lemma advances_dispatch:
  "advances st (st\<lparr>trace := trace st @ [EvDispatch a m (wordIndex st)]\<rparr>
                 \<lparr>wordIndex := (if m \<in> set [WORD, REST, SEPARATE] then wordIndex st + 1 else wordIndex st)\<rparr>)"
  by (simp add: advances_def)

lemma advances_evaluate:
  assumes "evaluate cmd env msg arg st = (r, st')"
  shows "advances st st'"
proof -
  obtain r1 st1 where rm: "resolveMatch msg arg st = (r1, st1)"
    by (cases "resolveMatch msg arg st")
  have 1: "advances st st1" by (rule advances_resolveMatch[OF rm])
  show ?thesis
  proof (cases r1)
    case (Inl e)
    with assms rm 1 show ?thesis by (simp add: evaluate_def)
  next
    case (Inr m)
    let ?st2 = "st1\<lparr>trace := trace st1 @ [EvDispatch (id' arg) m (wordIndex st1)]\<rparr>"
    let ?st3 = "if m \<in> set [WORD, REST, SEPARATE] then ?st2\<lparr>wordIndex := wordIndex ?st2 + 1\<rparr> else ?st2"
    have 3: "advances st1 ?st3"
      by (cases "m \<in> set [WORD, REST, SEPARATE]") (simp_all add: advances_def)
    show ?thesis
    proof (cases "parseFuncs cmd env m arg (wordIndex st1)")
      case (Inl e)
      then have "m \<notin> set [WORD, REST, SEPARATE]" by (auto simp: parseFuncs_def)
      then have 2: "advances st1 ?st2" by (simp add: advances_def)
      from Inl assms rm Inr have "st' = ?st2" by (simp add: evaluate_def Let_def)
      with 1 2 show ?thesis by (auto intro: advances_trans)
    next
      case pf: (Inr pf)
      obtain r4 st4 where run: "pf msg ?st3 = (r4, st4)" by (cases "pf msg ?st3")
      from advances_processFunc[OF pf run] have 4: "advances ?st3 st4" .
      from assms rm Inr pf run
      have "st' = st4 \<or> (\<exists>p. st' = st4\<lparr>processed := p\<rparr>)"
        by (auto simp: evaluate_def Let_def split: sum.splits if_splits)
      with advances_trans[OF 1 advances_trans[OF 3 4]] show ?thesis by auto
    qed
  qed
qed

lemma advances_findAllowed:
  "findAllowed as msg st = (r, st') \<Longrightarrow> advances st st'"
proof (induction as arbitrary: st)
  case Nil
  then show ?case by simp
next
  case (Cons a as)
  obtain r1 st1 where c: "call (EvAllow (id' a) (processed st)) (allow a msg (processed st)) st = (r1, st1)"
    by (cases "call (EvAllow (id' a) (processed st)) (allow a msg (processed st)) st")
  have 1: "advances st st1" by (rule advances_call[OF c]) simp_all
  from Cons.prems c 1 Cons.IH show ?case
    by (auto split: sum.splits if_splits intro: advances_trans)
qed

lemma parse_process_step:
  assumes "i < length (args cmd)"
  shows "parse_process cmd env message i st =
           (case slotStep cmd env message i (args cmd ! i) st of
              (Inl e, st1) \<Rightarrow> (Inl e, st1)
            | (Inr u, st1) \<Rightarrow> parse_process cmd env message (i + 1) st1)"
  using assms
  by (subst parse_process.simps)
     (simp add: slotStep_def split: slot.splits prod.splits sum.splits option.splits)

lemma parse_process_end:
  "parse_process cmd env message (length (args cmd)) st = (Inr (processed st), st)"
  by (subst parse_process.simps) simp

lemma advances_slotStep:
  assumes "slotStep cmd env message i slot st = (r, st')"
  shows "advances st st'"
proof (cases slot)
  case (Arg arg)
  obtain r1 st1 where c: "call (EvAllow (id' arg) (processed st))
                            (allow arg message (processed st)) st = (r1, st1)"
    by (cases "call (EvAllow (id' arg) (processed st)) (allow arg message (processed st)) st")
  have 1: "advances st st1" by (rule advances_call[OF c]) simp_all
  from assms Arg c have "st' = st1 \<or> evaluate cmd env message arg st1 = (r, st')"
    by (auto simp: slotStep_def split: sum.splits if_splits)
  with 1 show ?thesis by (auto dest!: advances_evaluate intro: advances_trans)
next
  case (Group as)
  obtain r1 st1 where c: "findAllowed as message st = (r1, st1)"
    by (cases "findAllowed as message st")
  have 1: "advances st st1" by (rule advances_findAllowed[OF c])
  from assms Group c
  have "st' = st1 \<or> (\<exists>arg. evaluate cmd env message arg st1 = (r, st'))"
    by (auto simp: slotStep_def split: sum.splits option.splits)
  with 1 show ?thesis by (auto dest!: advances_evaluate intro: advances_trans)
next
  case (Probe f)
  obtain r1 st1 where c: "call (EvProbe i (processed st)) (f message (processed st)) st = (r1, st1)"
    by (cases "call (EvProbe i (processed st)) (f message (processed st)) st")
  have 1: "advances st st1" by (rule advances_call[OF c]) simp_all
  from assms Probe c
  have "st' = st1 \<or> (\<exists>v r2. call (EvSend v) (send (channel message) v) st1 = (r2, st'))"
    by (auto simp: slotStep_def split: sum.splits if_splits prod.splits)
  then show ?thesis
  proof
    assume "st' = st1"
    with 1 show ?thesis by simp
  next
    assume "\<exists>v r2. call (EvSend v) (send (channel message) v) st1 = (r2, st')"
    then obtain v r2 where "call (EvSend v) (send (channel message) v) st1 = (r2, st')"
      by blast
    then have "advances st1 st'" by (rule advances_call) simp_all
    with 1 show ?thesis by (rule advances_trans)
  qed
qed

lemma advances_parse_process:
  "i \<le> length (args cmd) \<Longrightarrow> parse_process cmd env message i st = (r, st') \<Longrightarrow> advances st st'"
proof (induction "length (args cmd) - i" arbitrary: i st)
  case 0
  then have "i = length (args cmd)" by simp
  with "0.prems" show ?case by (simp add: parse_process_end)
next
  case (Suc n)
  then have i: "i < length (args cmd)" by simp
  obtain r1 st1 where s: "slotStep cmd env message i (args cmd ! i) st = (r1, st1)"
    by (cases "slotStep cmd env message i (args cmd ! i) st")
  have 1: "advances st st1" by (rule advances_slotStep[OF s])
  show ?case
  proof (cases r1)
    case (Inl e)
    with Suc.prems s 1 i show ?thesis by (simp add: parse_process_step)
  next
    case (Inr u)
    with Suc.prems s i have "parse_process cmd env message (i + 1) st1 = (r, st')"
      by (simp add: parse_process_step)
    from Suc.hyps(1)[OF _ _ this] Suc.hyps(2) i have "advances st1 st'" by simp
    with 1 show ?thesis by (rule advances_trans)
  qed
qed

text \<open>
  Claim C4.  In one call of \<^verbatim>\<open>parse\<close> the cursor starts at 0 and is incremented by
  one for each slot that is dispatched in mode WORD, REST or SEPARATE, and by
  nothing else: whatever the outcome of the call, the final cursor is the number of
  such dispatches, and every dispatch (event \<open>j\<close> of the call, for spec \<open>a\<close> in
  mode \<open>m\<close>) was handed as cursor \<open>k\<close> the number of such dispatches before it.
  So a dispatch in mode PREFIX, FLAG, TEXT, CONTENT or NONE, a skipped slot and a
  cancellation probe (which dispatch nothing) leave the cursor as it is, the size
  of a window plays no part, and the cursor never decreases.
\<close>

lemma filter_take_mono:
  "j1 \<le> j2 \<Longrightarrow> length (filter P (take j1 xs)) \<le> length (filter P (take j2 xs))"
proof -
  assume "j1 \<le> j2"
  then have "take j2 xs = take j1 xs @ take (j2 - j1) (drop j1 xs)"
    by (metis le_add_diff_inverse take_add)
  then show ?thesis by simp
qed

theorem cursor_counts_positional_dispatches:
  "wordIndex (snd (parse cmd content' message w)) =
     length (filter positional (trace (snd (parse cmd content' message w))))
   \<and> (\<forall>j a m k. j < length (trace (snd (parse cmd content' message w)))
          \<and> trace (snd (parse cmd content' message w)) ! j = EvDispatch a m k
        \<longrightarrow> k = length (filter positional (take j (trace (snd (parse cmd content' message w))))))
   \<and> (\<forall>j1 j2 a1 m1 k1 a2 m2 k2.
          j1 \<le> j2 \<and> j2 < length (trace (snd (parse cmd content' message w)))
          \<and> trace (snd (parse cmd content' message w)) ! j1 = EvDispatch a1 m1 k1
          \<and> trace (snd (parse cmd content' message w)) ! j2 = EvDispatch a2 m2 k2
        \<longrightarrow> k1 \<le> k2 \<and> k2 \<le> wordIndex (snd (parse cmd content' message w)))"
proof -
  let ?st0 = "\<lparr>processed = [], wordIndex = 0, world = w, trace = []\<rparr>"
  have "advances ?st0 (snd (parse cmd content' message w))"
  proof (cases "args cmd = []")
    case True
    then show ?thesis by (simp add: parse_def)
  next
    case False
    obtain r1 st1 where sp: "splitText cmd content' message ?st0 = (r1, st1)"
      by (cases "splitText cmd content' message ?st0")
    have 1: "advances ?st0 st1"
      using sp
      by (auto simp: splitText_def advances_def call_def
               split: splitOption.splits prod.splits sum.splits option.splits bool.splits)
    show ?thesis
    proof (cases r1)
      case (Inl e)
      with False sp 1 show ?thesis by (simp add: parse_def)
    next
      case (Inr split')
      show ?thesis
      proof (cases "getPrefixes cmd")
        case (Inl e)
        with False sp Inr 1 show ?thesis by (simp add: parse_def)
      next
        case gp: (Inr ds)
        show ?thesis
        proof (cases split')
          case None
          with False sp Inr gp 1 show ?thesis by (simp add: parse_def)
        next
          case (Some wq)
          obtain ws q where wq: "wq = (ws, q)" by (cases wq)
          let ?env = "\<lparr>content = content', words = ws,
                        isQuoted = (case split cmd of QUOTED \<Rightarrow> True | STICKY \<Rightarrow> True | _ \<Rightarrow> q),
                        noPrefixWords = noPrefix ds ws\<rparr>"
          from False sp Inr Some wq gp
          have "parse cmd content' message w = parse_process cmd ?env message 0 st1"
            by (simp add: parse_def)
          moreover have "advances st1 (snd (parse_process cmd ?env message 0 st1))"
            by (rule advances_parse_process[of 0 cmd ?env message st1
                  "fst (parse_process cmd ?env message 0 st1)"]) simp_all
          ultimately show ?thesis using 1 by (auto intro: advances_trans)
        qed
      qed
    qed
  qed
  then obtain new where tr: "trace (snd (parse cmd content' message w)) = new"
    and wi: "wordIndex (snd (parse cmd content' message w)) = length (filter positional new)"
    and tk: "tracks 0 new"
    by (auto simp: advances_def)
  have nth: "k = length (filter positional (take j new))"
    if "j < length new" and "new ! j = EvDispatch a m k" for j a m k
    using tracks_nth[OF tk that] by simp
  have mono: "k1 \<le> k2 \<and> k2 \<le> length (filter positional new)"
    if "j1 \<le> j2" and "j2 < length new" and "new ! j1 = EvDispatch a1 m1 k1"
      and "new ! j2 = EvDispatch a2 m2 k2" for j1 j2 a1 m1 k1 a2 m2 k2
  proof -
    from that have "j1 < length new" by simp
    from nth[OF this that(3)] nth[OF that(2) that(4)]
    have k1: "k1 = length (filter positional (take j1 new))"
      and k2: "k2 = length (filter positional (take j2 new))"
      by simp_all
    have "length (filter positional (take j2 new)) \<le> length (filter positional (take (length new) new))"
      using that(2) by (intro filter_take_mono) simp
    with k1 k2 filter_take_mono[OF that(1), of positional new] show ?thesis by simp
  qed
  from nth mono show ?thesis unfolding tr wi by blast
qed

theorem cursor_counts_positional_dispatches_witness:
  "trace (snd (parse (exCommand exSlots) ''a b c'' exMessage 0)) =
     [EvSplit ''a b c'', EvAllow ''first'' [], EvDispatch ''first'' WORD 0,
      EvProcess ''first'' ''a '' [], EvProbe 1 [(''first'', Str ''a '')],
      EvAllow ''rest'' [(''first'', Str ''a '')], EvDispatch ''rest'' SEPARATE 1,
      EvProcess ''rest'' ''b '' [(''first'', Str ''a ''), (''rest'', Arr [])],
      EvProcess ''rest'' ''c'' [(''first'', Str ''a ''), (''rest'', Arr [Str ''b ''])]]
   \<and> wordIndex (snd (parse (exCommand exSlots) ''a b c'' exMessage 0)) = 2"
  (is "?T \<and> ?W")
proof -
  have tr: ?T by code_simp
  from cursor_counts_positional_dispatches[of "exCommand exSlots" "''a b c''" exMessage 0]
  have ?W unfolding tr by simp
  with tr show ?thesis by (intro conjI)
qed

section \<open>SEPARATE mode\<close>

lemma separateLoop_run:
  assumes "separateLoop arg msg ws res st = (r, st')"
    and "processed st = AList.update (id' arg) (Arr res) P"
  shows "\<exists>vs wl. length wl = Suc (length vs) \<and> length vs \<le> length ws \<and> wl ! 0 = world st
      \<and> (\<forall>k<length vs.
            process arg (ws ! k) msg (AList.update (id' arg) (Arr (res @ take k vs)) P) (wl ! k)
            = (Inr (vs ! k), wl ! Suc k))
      \<and> trace st' = trace st @
            map (\<lambda>k. EvProcess (id' arg) (ws ! k) (AList.update (id' arg) (Arr (res @ take k vs)) P))
              [0..<min (length ws) (Suc (length vs))]
      \<and> wordIndex st' = wordIndex st
      \<and> (case r of
            Inr v \<Rightarrow> length vs = length ws \<and> v = Arr (res @ vs) \<and> world st' = wl ! length vs
                     \<and> processed st' = AList.update (id' arg) (Arr (res @ vs)) P
          | Inl e \<Rightarrow> length vs < length ws
                     \<and> process arg (ws ! length vs) msg
                          (AList.update (id' arg) (Arr (res @ vs)) P) (wl ! length vs)
                        = (Inl e, world st'))"
  using assms
proof (induction ws arbitrary: res st)
  case Nil
  then show ?case
    by (intro exI[of _ "[]"] exI[of _ "[world st]"]) auto
next
  case (Cons w ws)
  obtain r1 w1 where p: "process arg w msg (processed st) (world st) = (r1, w1)"
    by (cases "process arg w msg (processed st) (world st)")
  let ?st1 = "st\<lparr>world := w1, trace := trace st @ [EvProcess (id' arg) w (processed st)]\<rparr>"
  have c: "call (EvProcess (id' arg) w (processed st)) (process arg w msg (processed st)) st
             = (r1, ?st1)"
    using p by (simp add: call_def)
  show ?case
  proof (cases r1)
    case (Inl e)
    with Cons.prems(1) c have "r = Inl e" "st' = ?st1" by simp_all
    with p Inl Cons.prems(2) show ?thesis
      by (intro exI[of _ "[]"] exI[of _ "[world st]"]) simp
  next
    case (Inr x)
    let ?st2 = "?st1\<lparr>processed := AList.update (id' arg) (Arr (res @ [x])) (processed ?st1)\<rparr>"
    from Cons.prems(1) c Inr
    have rec: "separateLoop arg msg ws (res @ [x]) ?st2 = (r, st')" by simp
    have P2: "processed ?st2 = AList.update (id' arg) (Arr (res @ [x])) P"
      using Cons.prems(2) by simp
    from Cons.IH[OF rec P2] obtain vs wl where
      len: "length wl = Suc (length vs)" "length vs \<le> length ws" and w0: "wl ! 0 = w1"
      and calls: "\<forall>k<length vs.
            process arg (ws ! k) msg (AList.update (id' arg) (Arr ((res @ [x]) @ take k vs)) P) (wl ! k)
            = (Inr (vs ! k), wl ! Suc k)"
      and tr: "trace st' = trace ?st2 @
            map (\<lambda>k. EvProcess (id' arg) (ws ! k) (AList.update (id' arg) (Arr ((res @ [x]) @ take k vs)) P))
              [0..<min (length ws) (Suc (length vs))]"
      and wi: "wordIndex st' = wordIndex ?st2"
      and fin: "(case r of
            Inr v \<Rightarrow> length vs = length ws \<and> v = Arr ((res @ [x]) @ vs) \<and> world st' = wl ! length vs
                     \<and> processed st' = AList.update (id' arg) (Arr ((res @ [x]) @ vs)) P
          | Inl e \<Rightarrow> length vs < length ws
                     \<and> process arg (ws ! length vs) msg
                          (AList.update (id' arg) (Arr ((res @ [x]) @ vs)) P) (wl ! length vs)
                        = (Inl e, world st'))"
      by auto
    show ?thesis
    proof (intro exI[of _ "x # vs"] exI[of _ "world st # wl"] conjI)
      show "length (world st # wl) = Suc (length (x # vs))" using len by simp
      show "length (x # vs) \<le> length (w # ws)" using len by simp
      show "(world st # wl) ! 0 = world st" by simp
      show "\<forall>k<length (x # vs).
            process arg ((w # ws) ! k) msg
              (AList.update (id' arg) (Arr (res @ take k (x # vs))) P) ((world st # wl) ! k)
            = (Inr ((x # vs) ! k), (world st # wl) ! Suc k)"
      proof (intro allI impI)
        fix k assume "k < length (x # vs)"
        then show "process arg ((w # ws) ! k) msg
              (AList.update (id' arg) (Arr (res @ take k (x # vs))) P) ((world st # wl) ! k)
            = (Inr ((x # vs) ! k), (world st # wl) ! Suc k)"
          using p Inr w0 calls Cons.prems(2) by (cases k) auto
      qed
      show "trace st' = trace st @
            map (\<lambda>k. EvProcess (id' arg) ((w # ws) ! k)
                       (AList.update (id' arg) (Arr (res @ take k (x # vs))) P))
              [0..<min (length (w # ws)) (Suc (length (x # vs)))]"
        using tr Cons.prems(2) by (simp add: map_upt_Suc del: upt_Suc)
      show "wordIndex st' = wordIndex st" using wi by simp
      show "(case r of
            Inr v \<Rightarrow> length (x # vs) = length (w # ws) \<and> v = Arr (res @ x # vs)
                     \<and> world st' = (world st # wl) ! length (x # vs)
                     \<and> processed st' = AList.update (id' arg) (Arr (res @ x # vs)) P
          | Inl e \<Rightarrow> length (x # vs) < length (w # ws)
                     \<and> process arg ((w # ws) ! length (x # vs)) msg
                          (AList.update (id' arg) (Arr (res @ x # vs)) P)
                          ((world st # wl) ! length (x # vs))
                        = (Inl e, world st'))"
        using fin by (cases r) auto
    qed
  qed
qed

lemma parseSEPARATE_run:
  fixes env :: penv and arg :: "'w Argument" and idx :: nat
  defines "W \<equiv> window (noPrefixWords env) (indexOr arg (int idx)) (limit arg)"
  assumes "W \<noteq> []" and "parseSEPARATE env arg idx message st = (r, st')"
  shows "\<exists>vs wl. length wl = Suc (length vs) \<and> length vs \<le> length W \<and> wl ! 0 = world st
      \<and> (\<forall>k<length vs.
            process arg (W ! k) message
              (AList.update (id' arg) (Arr (take k vs)) (processed st)) (wl ! k)
            = (Inr (vs ! k), wl ! Suc k))
      \<and> trace st' = trace st @
            map (\<lambda>k. EvProcess (id' arg) (W ! k)
                       (AList.update (id' arg) (Arr (take k vs)) (processed st)))
              [0..<min (length W) (Suc (length vs))]
      \<and> wordIndex st' = wordIndex st
      \<and> (case r of
            Inr v \<Rightarrow> length vs = length W \<and> v = Arr vs \<and> world st' = wl ! length vs
                     \<and> processed st' = AList.update (id' arg) (Arr vs) (processed st)
          | Inl e \<Rightarrow> length vs < length W
                     \<and> process arg (W ! length vs) message
                          (AList.update (id' arg) (Arr vs) (processed st)) (wl ! length vs)
                        = (Inl e, world st'))"
proof -
  let ?st = "st\<lparr>processed := AList.update (id' arg) (Arr []) (processed st)\<rparr>"
  from assms have run: "separateLoop arg message W [] ?st = (r, st')"
    by (simp add: parseSEPARATE_def)
  have "processed ?st = AList.update (id' arg) (Arr []) (processed st)" by simp
  from separateLoop_run[OF run this] show ?thesis by (cases r) simp_all
qed

lemma evaluate_SEPARATE:
  assumes "resolveMatch message arg st0 = (Inr SEPARATE, st)"
  shows "evaluate cmd env message arg st0 =
           (case parseSEPARATE env arg (wordIndex st) message
                   (st\<lparr>trace := trace st @ [EvDispatch (id' arg) SEPARATE (wordIndex st)],
                       wordIndex := wordIndex st + 1\<rparr>) of
              (Inl e, st4) \<Rightarrow> (Inl e, st4)
            | (Inr res, st4) \<Rightarrow>
                (Inr (), st4\<lparr>processed := AList.update (id' arg) res (processed st4)\<rparr>))"
  using assms by (simp add: evaluate_def parseFuncs_def Let_def)

text \<open>
  Claim C3.  Let the mode of a spec resolve to SEPARATE in the state \<open>st\<close>, and let
  \<open>W\<close> be the window of the filtered pool that the cursor, the index and the limit
  of the spec cut out.
  \<^item> If \<open>W\<close> is empty, the resolver is called exactly once, with the empty string:
    after the dispatch the slot leaves the one event of that call, whatever the
    call yields.
  \<^item> If \<open>W\<close> is not empty and the slot resolves, the resolver was called exactly
    once per token of \<open>W\<close>, in the order of \<open>W\<close>; call \<open>k\<close> started in the world
    \<open>wl ! k\<close> that call \<open>k - 1\<close> had left behind (the first one in the world of
    \<open>st\<close>), so no call starts before the one before it has completed; and the
    result stored for the spec is the sequence \<open>vs\<close> of the values that the calls
    resolved to, in the same order.
\<close>

theorem separate_slot:
  fixes env :: penv and arg :: "'w Argument" and st :: "'w pstate"
  defines "W \<equiv> window (noPrefixWords env) (indexOr arg (int (wordIndex st))) (limit arg)"
  assumes "resolveMatch message arg st0 = (Inr SEPARATE, st)"
    and "evaluate cmd env message arg st0 = (r, st')"
  shows "(W = [] \<longrightarrow>
            trace st' = trace st @ [EvDispatch (id' arg) SEPARATE (wordIndex st),
                                    EvProcess (id' arg) [] (processed st)])
       \<and> (W \<noteq> [] \<and> r = Inr () \<longrightarrow>
            (\<exists>vs wl. length vs = length W \<and> length wl = Suc (length W)
               \<and> wl ! 0 = world st \<and> wl ! length W = world st'
               \<and> (\<forall>k<length W.
                     process arg (W ! k) message
                       (AList.update (id' arg) (Arr (take k vs)) (processed st)) (wl ! k)
                     = (Inr (vs ! k), wl ! Suc k))
               \<and> trace st' = trace st @ EvDispatch (id' arg) SEPARATE (wordIndex st) #
                     map (\<lambda>k. EvProcess (id' arg) (W ! k)
                                (AList.update (id' arg) (Arr (take k vs)) (processed st)))
                       [0..<length W]
               \<and> processed st' = AList.update (id' arg) (Arr vs) (processed st)))"
proof (intro conjI impI)
  let ?st3 = "st\<lparr>trace := trace st @ [EvDispatch (id' arg) SEPARATE (wordIndex st)],
                  wordIndex := wordIndex st + 1\<rparr>"
  note ev = assms(3)[unfolded evaluate_SEPARATE[OF assms(2)]]
  {
    assume "W = []"
    then have "parseSEPARATE env arg (wordIndex st) = bindProcess arg []"
      by (simp add: parseSEPARATE_def W_def)
    with ev show "trace st' = trace st @ [EvDispatch (id' arg) SEPARATE (wordIndex st),
                                    EvProcess (id' arg) [] (processed st)]"
      by (auto simp: bindProcess_def call_def split: prod.splits sum.splits)
  }
  {
    assume a: "W \<noteq> [] \<and> r = Inr ()"
    obtain r4 st4 where run: "parseSEPARATE env arg (wordIndex st) message ?st3 = (r4, st4)"
      by (cases "parseSEPARATE env arg (wordIndex st) message ?st3")
    with ev a obtain v where r4: "r4 = Inr v"
      and st': "st' = st4\<lparr>processed := AList.update (id' arg) v (processed st4)\<rparr>"
      by (auto split: sum.splits)
    from a have W: "window (noPrefixWords env) (indexOr arg (int (wordIndex st))) (limit arg) \<noteq> []"
      by (simp add: W_def)
    from parseSEPARATE_run[OF W run[unfolded r4]]
    obtain vs wl where *: "length wl = Suc (length vs)" "wl ! 0 = world ?st3"
      "\<forall>k<length vs.
            process arg (W ! k) message
              (AList.update (id' arg) (Arr (take k vs)) (processed ?st3)) (wl ! k)
            = (Inr (vs ! k), wl ! Suc k)"
      "trace st4 = trace ?st3 @
            map (\<lambda>k. EvProcess (id' arg) (W ! k)
                       (AList.update (id' arg) (Arr (take k vs)) (processed ?st3)))
              [0..<min (length W) (Suc (length vs))]"
      "length vs = length W" "v = Arr vs" "world st4 = wl ! length vs"
      "processed st4 = AList.update (id' arg) (Arr vs) (processed ?st3)"
      unfolding W_def by auto
    show "\<exists>vs wl. length vs = length W \<and> length wl = Suc (length W)
               \<and> wl ! 0 = world st \<and> wl ! length W = world st'
               \<and> (\<forall>k<length W.
                     process arg (W ! k) message
                       (AList.update (id' arg) (Arr (take k vs)) (processed st)) (wl ! k)
                     = (Inr (vs ! k), wl ! Suc k))
               \<and> trace st' = trace st @ EvDispatch (id' arg) SEPARATE (wordIndex st) #
                     map (\<lambda>k. EvProcess (id' arg) (W ! k)
                                (AList.update (id' arg) (Arr (take k vs)) (processed st)))
                       [0..<length W]
               \<and> processed st' = AList.update (id' arg) (Arr vs) (processed st)"
      apply (rule exI[of _ vs], rule exI[of _ wl])
      using * st' by simp
  }
qed

theorem separate_slot_witness:
  "resolveMatch exMessage exSeparate exState = (Inr SEPARATE, exState)
   \<and> evaluate (exCommand []) exDigits exMessage exSeparate exState
      = (Inr (), exDigitsDone)
   \<and> window (noPrefixWords exDigits) (indexOr exSeparate (int (wordIndex exState)))
        (limit exSeparate) = [''1'', ''2'', ''3'']
   \<and> (\<exists>vs wl.
         length vs = length (window (noPrefixWords exDigits)
                               (indexOr exSeparate (int (wordIndex exState))) (limit exSeparate))
         \<and> length wl = Suc (length (window (noPrefixWords exDigits)
                               (indexOr exSeparate (int (wordIndex exState))) (limit exSeparate)))
         \<and> wl ! 0 = world exState
         \<and> wl ! length (window (noPrefixWords exDigits)
                               (indexOr exSeparate (int (wordIndex exState))) (limit exSeparate))
             = world exDigitsDone
         \<and> (\<forall>k<length (window (noPrefixWords exDigits)
                               (indexOr exSeparate (int (wordIndex exState))) (limit exSeparate)).
               process exSeparate
                 (window (noPrefixWords exDigits)
                    (indexOr exSeparate (int (wordIndex exState))) (limit exSeparate) ! k)
                 exMessage
                 (AList.update (id' exSeparate) (Arr (take k vs)) (processed exState)) (wl ! k)
               = (Inr (vs ! k), wl ! Suc k))
         \<and> trace exDigitsDone
             = trace exState @ EvDispatch (id' exSeparate) SEPARATE (wordIndex exState) #
                 map (\<lambda>k. EvProcess (id' exSeparate)
                            (window (noPrefixWords exDigits)
                               (indexOr exSeparate (int (wordIndex exState))) (limit exSeparate) ! k)
                            (AList.update (id' exSeparate) (Arr (take k vs)) (processed exState)))
                   [0..<length (window (noPrefixWords exDigits)
                               (indexOr exSeparate (int (wordIndex exState))) (limit exSeparate))]
         \<and> processed exDigitsDone
             = AList.update (id' exSeparate) (Arr vs) (processed exState))"
  (is "?H1 \<and> ?H2 \<and> ?W \<and> ?C")
proof -
  have h1: ?H1 by (simp add: resolveMatch_def exSeparate_def exArg_def)
  have h2: ?H2 by code_simp
  have w: ?W by code_simp
  have c: ?C
    by (rule separate_slot[OF h1 h2, THEN conjunct2, THEN mp]) (simp add: w)
  from h1 h2 w c show ?thesis by (intro conjI)
qed

text \<open>
  Claim C10.  A SEPARATE evaluator with a window \<open>W\<close> that is not empty, run in the
  state \<open>st\<close>, whatever its outcome \<open>r\<close>: it makes \<open>n\<close> resolver calls, one for each
  token of \<open>W\<close> up to the first call that fails; \<open>vs\<close> are the values that the
  calls resolved to.  Call \<open>k\<close> (counted from 0) receives the token \<open>W ! k\<close> and the
  results of \<open>st\<close> with the entry of the spec's identifier set to the sequence of the
  first \<open>k\<close> values: the empty sequence for the first token, and the resolved values
  of the tokens before it for every later one.
\<close>

theorem separate_in_progress:
  fixes env :: penv and arg :: "'w Argument" and idx :: nat
  defines "W \<equiv> window (noPrefixWords env) (indexOr arg (int idx)) (limit arg)"
  assumes "parseFuncs cmd env SEPARATE arg idx = Inr processFunc"
    and "W \<noteq> []"
    and "processFunc message st = (r, st')"
  shows "\<exists>vs wl n.
        n = (case r of Inr v \<Rightarrow> length vs | Inl e \<Rightarrow> Suc (length vs))
      \<and> n \<le> length W
      \<and> (case r of Inr v \<Rightarrow> v = Arr vs \<and> n = length W | Inl e \<Rightarrow> True)
      \<and> length wl = Suc (length vs) \<and> wl ! 0 = world st
      \<and> (\<forall>k<length vs.
            process arg (W ! k) message
              (AList.update (id' arg) (Arr (take k vs)) (processed st)) (wl ! k)
            = (Inr (vs ! k), wl ! Suc k))
      \<and> trace st' = trace st @
            map (\<lambda>k. EvProcess (id' arg) (W ! k)
                       (AList.update (id' arg) (Arr (take k vs)) (processed st)))
              [0..<n]
      \<and> (\<forall>k<n. map_of (AList.update (id' arg) (Arr (take k vs)) (processed st)) (id' arg)
                  = Some (Arr (take k vs)))"
proof -
  from assms(2) have pf: "processFunc = parseSEPARATE env arg idx"
    by (simp add: parseFuncs_def)
  from parseSEPARATE_run[OF assms(3)[unfolded W_def] assms(4)[unfolded pf]]
  obtain vs wl where *: "length wl = Suc (length vs)" "length vs \<le> length W"
    "wl ! 0 = world st"
    "\<forall>k<length vs.
            process arg (W ! k) message
              (AList.update (id' arg) (Arr (take k vs)) (processed st)) (wl ! k)
            = (Inr (vs ! k), wl ! Suc k)"
    "trace st' = trace st @
            map (\<lambda>k. EvProcess (id' arg) (W ! k)
                       (AList.update (id' arg) (Arr (take k vs)) (processed st)))
              [0..<min (length W) (Suc (length vs))]"
    "(case r of
            Inr v \<Rightarrow> length vs = length W \<and> v = Arr vs \<and> world st' = wl ! length vs
                     \<and> processed st' = AList.update (id' arg) (Arr vs) (processed st)
          | Inl e \<Rightarrow> length vs < length W
                     \<and> process arg (W ! length vs) message
                          (AList.update (id' arg) (Arr vs) (processed st)) (wl ! length vs)
                        = (Inl e, world st'))"
    unfolding W_def by blast
  have n: "min (length W) (Suc (length vs))
             = (case r of Inr v \<Rightarrow> length vs | Inl e \<Rightarrow> Suc (length vs))"
    using *(6) by (cases r) auto
  show ?thesis
    apply (rule exI[of _ vs], rule exI[of _ wl])
    using * unfolding n by (cases r) (auto simp: update_conv')
qed

theorem separate_in_progress_witness:
  "parseFuncs (exCommand []) exDigits SEPARATE exCounting 0
     = Inr (parseSEPARATE exDigits exCounting 0)
   \<and> window (noPrefixWords exDigits) (indexOr exCounting (int 0)) (limit exCounting) \<noteq> []
   \<and> parseSEPARATE exDigits exCounting 0 exMessage exState
     = (Inr (Arr [Num 0, Num 1, Num 2]), exCountingDone)
   \<and> (\<exists>vs wl n.
        n = (case (Inr (Arr [Num 0, Num 1, Num 2]) :: error + jsval) of
               Inr v \<Rightarrow> length vs | Inl e \<Rightarrow> Suc (length vs))
      \<and> n \<le> length (window (noPrefixWords exDigits) (indexOr exCounting (int 0)) (limit exCounting))
      \<and> (case (Inr (Arr [Num 0, Num 1, Num 2]) :: error + jsval) of
            Inr v \<Rightarrow> v = Arr vs
              \<and> n = length (window (noPrefixWords exDigits) (indexOr exCounting (int 0))
                              (limit exCounting))
          | Inl e \<Rightarrow> True)
      \<and> length wl = Suc (length vs) \<and> wl ! 0 = world exState
      \<and> (\<forall>k<length vs.
            process exCounting
              (window (noPrefixWords exDigits) (indexOr exCounting (int 0)) (limit exCounting) ! k)
              exMessage
              (AList.update (id' exCounting) (Arr (take k vs)) (processed exState)) (wl ! k)
            = (Inr (vs ! k), wl ! Suc k))
      \<and> trace exCountingDone = trace exState @
            map (\<lambda>k. EvProcess (id' exCounting)
                       (window (noPrefixWords exDigits) (indexOr exCounting (int 0))
                          (limit exCounting) ! k)
                       (AList.update (id' exCounting) (Arr (take k vs)) (processed exState)))
              [0..<n]
      \<and> (\<forall>k<n. map_of (AList.update (id' exCounting) (Arr (take k vs)) (processed exState))
                    (id' exCounting)
                  = Some (Arr (take k vs))))"
  (is "?H1 \<and> ?H2 \<and> ?H3 \<and> ?C")
proof -
  have h1: ?H1 by (simp add: parseFuncs_def)
  have h2: ?H2 by code_simp
  have h3: ?H3 by code_simp
  have c: ?C by (rule separate_in_progress[OF h1 h2 h3])
  from h1 h2 h3 c show ?thesis by (intro conjI)
qed

section \<open>Determinism\<close>

lemma eraseD:
  "erase st1 = erase st2 \<Longrightarrow>
     processed st1 = processed st2 \<and> wordIndex st1 = wordIndex st2 \<and> trace st1 = trace st2"
  by (simp add: erase_def)

lemma erase_simps [simp]:
  "erase (st\<lparr>world := w\<rparr>) = erase st"
  "erase (st\<lparr>trace := t\<rparr>) = (erase st)\<lparr>trace := t\<rparr>"
  "erase (st\<lparr>processed := p\<rparr>) = (erase st)\<lparr>processed := p\<rparr>"
  "erase (st\<lparr>wordIndex := k\<rparr>) = (erase st)\<lparr>wordIndex := k\<rparr>"
  "processed (erase st) = processed st"
  "wordIndex (erase st) = wordIndex st"
  "trace (erase st) = trace st"
  by (simp_all add: erase_def)

lemma same_call:
  assumes "pureExt f" and "erase st1 = erase st2"
  shows "same (call ev f st1) (call ev f st2)"
proof -
  from assms(1) have "fst (f (world st1)) = fst (f (world st2))" by (simp add: pureExt_def)
  with eraseD[OF assms(2)] assms(2) show ?thesis
    by (auto simp: same_def call_def split: prod.splits)
qed

lemma sameI: "fst x = fst y \<Longrightarrow> erase (snd x) = erase (snd y) \<Longrightarrow> same x y"
  by (simp add: same_def)

lemma same_bindProcess:
  assumes "deterministicArg message arg" and "erase st1 = erase st2"
  shows "same (bindProcess arg word message st1) (bindProcess arg word message st2)"
  using eraseD[OF assms(2)] assms unfolding bindProcess_def
  by (auto intro!: same_call simp: deterministicArg_def)

lemma same_separateLoop:
  assumes "deterministicArg message arg" and "erase st1 = erase st2"
  shows "same (separateLoop arg message ws res st1) (separateLoop arg message ws res st2)"
  using assms(2)
proof (induction ws arbitrary: res st1 st2)
  case Nil
  then show ?case by (simp add: same_def)
next
  case (Cons w ws)
  from assms(1) have p: "pureExt (process arg w message (processed st1))"
    by (simp add: deterministicArg_def)
  from eraseD[OF Cons.prems] have eq: "processed st2 = processed st1" by simp
  obtain r1 s1 where c1: "call (EvProcess (id' arg) w (processed st1))
       (process arg w message (processed st1)) st1 = (r1, s1)"
    by (cases "call (EvProcess (id' arg) w (processed st1))
       (process arg w message (processed st1)) st1")
  obtain r2 s2 where c2: "call (EvProcess (id' arg) w (processed st1))
       (process arg w message (processed st1)) st2 = (r2, s2)"
    by (cases "call (EvProcess (id' arg) w (processed st1))
       (process arg w message (processed st1)) st2")
  from same_call[OF p Cons.prems, of "EvProcess (id' arg) w (processed st1)"] c1 c2
  have r: "r2 = r1" and s: "erase s1 = erase s2" by (simp_all add: same_def)
  show ?case
  proof (cases r1)
    case (Inl e)
    with c1 c2 r s eq show ?thesis by (simp add: same_def)
  next
    case (Inr v)
    from s eraseD[OF s]
    have "erase (s1\<lparr>processed := AList.update (id' arg) (Arr (res @ [v])) (processed s1)\<rparr>)
        = erase (s2\<lparr>processed := AList.update (id' arg) (Arr (res @ [v])) (processed s2)\<rparr>)"
      by simp
    from Cons.IH[OF this] Inr c1 c2 r eq show ?thesis by simp
  qed
qed

lemma same_flagEval:
  assumes "deterministicArg message arg" and "erase st1 = erase st2"
  shows "same (flagEval arg found message st1) (flagEval arg found message st2)"
proof -
  from assms(1) have p: "pureExt (default' arg message (processed st1))"
    by (simp add: deterministicArg_def)
  from eraseD[OF assms(2)] have eq: "processed st2 = processed st1" by simp
  from same_call[OF p assms(2), of "EvDefault (id' arg) (processed st1)"]
  show ?thesis
    unfolding flagEval_def eq
    by (auto simp: same_def Let_def split: prod.splits sum.splits)
qed

lemma same_processFunc:
  assumes "deterministicArg message arg" and "erase st1 = erase st2"
    and "parseFuncs cmd env m arg idx = Inr pf"
  shows "same (pf message st1) (pf message st2)"
proof (cases m)
  case SEPARATE
  from assms(2) eraseD[OF assms(2)]
  have "erase (st1\<lparr>processed := AList.update (id' arg) (Arr []) (processed st1)\<rparr>)
      = erase (st2\<lparr>processed := AList.update (id' arg) (Arr []) (processed st2)\<rparr>)"
    by simp
  from same_separateLoop[OF assms(1) this] same_bindProcess[OF assms(1,2)] assms(3) SEPARATE
  show ?thesis
    by (auto simp: parseFuncs_def parseSEPARATE_def Let_def split: if_splits)
next
  case FLAG
  with assms(3) same_flagEval[OF assms(1,2)] show ?thesis
    by (auto simp: parseFuncs_def parseFLAG_def split: sum.splits)
qed (use assms(3) same_bindProcess[OF assms(1,2)] in
      \<open>auto simp: parseFuncs_def split: sum.splits\<close>)

lemma same_resolveMatch:
  assumes "deterministicArg message arg" and "erase st1 = erase st2"
  shows "same (resolveMatch message arg st1) (resolveMatch message arg st2)"
proof (cases "match arg")
  case (Static m)
  with assms(2) show ?thesis by (simp add: resolveMatch_def same_def)
next
  case (Dynamic f)
  with assms(1) have p: "pureExt (f message (processed st1))"
    by (simp add: deterministicArg_def)
  from eraseD[OF assms(2)] have eq: "processed st2 = processed st1" by simp
  from same_call[OF p assms(2)] Dynamic show ?thesis
    by (simp add: resolveMatch_def eq)
qed

lemma erase_eqE:
  assumes "erase st1 = erase st2"
  obtains w where "st2 = st1\<lparr>world := w\<rparr>"
proof
  from assms show "st2 = st1\<lparr>world := world st2\<rparr>"
    by (cases st1, cases st2) (simp add: erase_def)
qed

lemma world_outward:
  "st\<lparr>world := w, trace := t\<rparr> = st\<lparr>trace := t, world := w\<rparr>"
  "st\<lparr>world := w, wordIndex := k\<rparr> = st\<lparr>wordIndex := k, world := w\<rparr>"
  "st\<lparr>world := w, processed := p\<rparr> = st\<lparr>processed := p, world := w\<rparr>"
  by (cases st, simp)+

lemma same_evaluate:
  assumes "deterministicArg message arg" and "erase st1 = erase st2"
  shows "same (evaluate cmd env message arg st1) (evaluate cmd env message arg st2)"
proof -
  obtain r1 s1 where m1: "resolveMatch message arg st1 = (r1, s1)"
    by (cases "resolveMatch message arg st1")
  obtain r2 s2 where m2: "resolveMatch message arg st2 = (r2, s2)"
    by (cases "resolveMatch message arg st2")
  from same_resolveMatch[OF assms] m1 m2 have r: "r2 = r1" and s: "erase s1 = erase s2"
    by (simp_all add: same_def)
  from s obtain w where s2: "s2 = s1\<lparr>world := w\<rparr>" by (rule erase_eqE)
  show ?thesis
  proof (cases r1)
    case (Inl e)
    with m1 m2 r s show ?thesis by (simp add: evaluate_def same_def)
  next
    case (Inr m)
    show ?thesis
    proof (cases "parseFuncs cmd env m arg (wordIndex s1)")
      case (Inl e')
      with m1 m2 r Inr s2 show ?thesis by (simp add: evaluate_def same_def Let_def)
    next
      case pf: (Inr pf)
      define u1 where "u1 = (if m \<in> set [WORD, REST, SEPARATE]
          then s1\<lparr>trace := trace s1 @ [EvDispatch (id' arg) m (wordIndex s1)],
                  wordIndex := wordIndex s1 + 1\<rparr>
          else s1\<lparr>trace := trace s1 @ [EvDispatch (id' arg) m (wordIndex s1)]\<rparr>)"
      have ev1: "evaluate cmd env message arg st1 =
          (case pf message u1 of (Inl e, v) \<Rightarrow> (Inl e, v)
           | (Inr res, v) \<Rightarrow> (Inr (), v\<lparr>processed := AList.update (id' arg) res (processed v)\<rparr>))"
        using m1 Inr pf by (simp add: evaluate_def Let_def u1_def)
      have ev2: "evaluate cmd env message arg st2 =
          (case pf message (u1\<lparr>world := w\<rparr>) of (Inl e, v) \<Rightarrow> (Inl e, v)
           | (Inr res, v) \<Rightarrow> (Inr (), v\<lparr>processed := AList.update (id' arg) res (processed v)\<rparr>))"
        using m2 r Inr pf s2 by (simp add: evaluate_def Let_def u1_def world_outward)
      have "erase u1 = erase (u1\<lparr>world := w\<rparr>)" by simp
      from same_processFunc[OF assms(1) this pf]
      have sm: "same (pf message u1) (pf message (u1\<lparr>world := w\<rparr>))" .
      obtain q1 v1 where p1: "pf message u1 = (q1, v1)" by (cases "pf message u1")
      obtain q2 v2 where p2: "pf message (u1\<lparr>world := w\<rparr>) = (q2, v2)"
        by (cases "pf message (u1\<lparr>world := w\<rparr>)")
      from sm p1 p2 have q: "q2 = q1" and v: "erase v1 = erase v2" by (simp_all add: same_def)
      from v obtain w' where v2: "v2 = v1\<lparr>world := w'\<rparr>" by (rule erase_eqE)
      show ?thesis unfolding ev1 ev2 p1 p2 q v2 by (cases q1) (simp_all add: same_def)
    qed
  qed
qed

lemma same_findAllowed:
  assumes "list_all (deterministicArg message) as" and "erase st1 = erase st2"
  shows "same (findAllowed as message st1) (findAllowed as message st2)"
  using assms
proof (induction as arbitrary: st1 st2)
  case Nil
  then show ?case by (simp add: same_def)
next
  case (Cons a as)
  from Cons.prems(1) have p: "pureExt (allow a message (processed st1))"
    by (simp add: deterministicArg_def)
  from eraseD[OF Cons.prems(2)] have eq: "processed st2 = processed st1" by simp
  obtain r1 s1 where c1: "call (EvAllow (id' a) (processed st1))
       (allow a message (processed st1)) st1 = (r1, s1)"
    by (cases "call (EvAllow (id' a) (processed st1)) (allow a message (processed st1)) st1")
  obtain r2 s2 where c2: "call (EvAllow (id' a) (processed st1))
       (allow a message (processed st1)) st2 = (r2, s2)"
    by (cases "call (EvAllow (id' a) (processed st1)) (allow a message (processed st1)) st2")
  from same_call[OF p Cons.prems(2), of "EvAllow (id' a) (processed st1)"] c1 c2
  have r: "r2 = r1" and s: "erase s1 = erase s2" by (simp_all add: same_def)
  from Cons.prems(1) have "list_all (deterministicArg message) as" by simp
  from Cons.IH[OF this s] c1 c2 r s eq show ?case
    by (cases r1) (auto simp: same_def)
qed

lemma agree_same: "same x y \<Longrightarrow> agree x y"
  by (simp add: agree_def)

lemma agree_slotStep:
  assumes "deterministicSlot message slot" and "erase st1 = erase st2"
  shows "agree (slotStep cmd env message i slot st1) (slotStep cmd env message i slot st2)"
proof (cases slot)
  case (Arg arg)
  with assms(1) have d: "deterministicArg message arg" by simp
  then have p: "pureExt (allow arg message (processed st1))" by (simp add: deterministicArg_def)
  from eraseD[OF assms(2)] have eq: "processed st2 = processed st1" by simp
  obtain r1 s1 where c1: "call (EvAllow (id' arg) (processed st1))
       (allow arg message (processed st1)) st1 = (r1, s1)"
    by (cases "call (EvAllow (id' arg) (processed st1)) (allow arg message (processed st1)) st1")
  obtain r2 s2 where c2: "call (EvAllow (id' arg) (processed st1))
       (allow arg message (processed st1)) st2 = (r2, s2)"
    by (cases "call (EvAllow (id' arg) (processed st1)) (allow arg message (processed st1)) st2")
  from same_call[OF p assms(2), of "EvAllow (id' arg) (processed st1)"] c1 c2
  have r: "r2 = r1" and s: "erase s1 = erase s2" by (simp_all add: same_def)
  from same_evaluate[OF d s] c1 c2 r s eq Arg show ?thesis
    by (cases r1) (auto simp: slotStep_def same_def agree_def)
next
  case (Group as)
  with assms(1) have d: "list_all (deterministicArg message) as" by simp
  obtain r1 s1 where c1: "findAllowed as message st1 = (r1, s1)"
    by (cases "findAllowed as message st1")
  obtain r2 s2 where c2: "findAllowed as message st2 = (r2, s2)"
    by (cases "findAllowed as message st2")
  from same_findAllowed[OF d assms(2)] c1 c2
  have r: "r2 = r1" and s: "erase s1 = erase s2" by (simp_all add: same_def)
  show ?thesis
  proof (cases r1)
    case (Inl e)
    with c1 c2 r s Group show ?thesis by (simp add: slotStep_def same_def agree_def)
  next
    case (Inr found)
    show ?thesis
    proof (cases found)
      case None
      with Inr c1 c2 r s Group show ?thesis by (simp add: slotStep_def same_def agree_def)
    next
      case (Some arg)
      have "findAllowed as message st1 = (Inr (Some arg), s1)" using c1 Inr Some by simp
      then have "arg \<in> set as"
      proof (induction as arbitrary: st1)
        case Nil
        then show ?case by simp
      next
        case (Cons a as)
        then show ?case
          by (auto split: prod.splits sum.splits if_splits)
      qed
      with d have "deterministicArg message arg" by (simp add: list_all_iff)
      from same_evaluate[OF this s] Some Inr c1 c2 r Group show ?thesis
        by (simp add: slotStep_def agree_def)
    qed
  qed
next
  case (Probe f)
  with assms(1) have p: "pureExt (f message (processed st1))" by simp
  from eraseD[OF assms(2)] have eq: "processed st2 = processed st1" by simp
  obtain r1 s1 where c1: "call (EvProbe i (processed st1)) (f message (processed st1)) st1 = (r1, s1)"
    by (cases "call (EvProbe i (processed st1)) (f message (processed st1)) st1")
  obtain r2 s2 where c2: "call (EvProbe i (processed st1)) (f message (processed st1)) st2 = (r2, s2)"
    by (cases "call (EvProbe i (processed st1)) (f message (processed st1)) st2")
  from same_call[OF p assms(2), of "EvProbe i (processed st1)"] c1 c2
  have r: "r2 = r1" and s: "erase s1 = erase s2" by (simp_all add: same_def)
  from c1 c2 r s eq Probe show ?thesis
    by (cases r1)
       (auto simp: slotStep_def same_def agree_def split: prod.splits sum.splits)
qed

lemma agree_parse_process:
  assumes "list_all (deterministicSlot message) (args cmd)"
  shows "i \<le> length (args cmd) \<Longrightarrow> erase st1 = erase st2 \<Longrightarrow>
         agree (parse_process cmd env message i st1) (parse_process cmd env message i st2)"
proof (induction "length (args cmd) - i" arbitrary: i st1 st2)
  case 0
  then have i: "i = length (args cmd)" by simp
  show ?case
    unfolding i parse_process_end
    using "0.prems"(2) eraseD[OF "0.prems"(2)] by (simp add: agree_def same_def)
next
  case (Suc n)
  then have i: "i < length (args cmd)" by simp
  with assms have d: "deterministicSlot message (args cmd ! i)" by (simp add: list_all_length)
  obtain r1 s1 where c1: "slotStep cmd env message i (args cmd ! i) st1 = (r1, s1)"
    by (cases "slotStep cmd env message i (args cmd ! i) st1")
  obtain r2 s2 where c2: "slotStep cmd env message i (args cmd ! i) st2 = (r2, s2)"
    by (cases "slotStep cmd env message i (args cmd ! i) st2")
  from agree_slotStep[OF d Suc.prems(2), of cmd env i] c1 c2
  have a: "(r2 = r1 \<and> erase s1 = erase s2) \<or> (isl r1 \<and> isl r2)"
    by (auto simp: agree_def same_def)
  show ?case
  proof (cases r1)
    case (Inl e)
    with a c1 c2 i show ?thesis
      by (cases r2) (auto simp: parse_process_step agree_def same_def)
  next
    case (Inr u)
    with a have r2: "r2 = Inr u" and s: "erase s1 = erase s2" by auto
    from Suc.hyps(2) i have "n = length (args cmd) - (i + 1)" "i + 1 \<le> length (args cmd)" by simp_all
    from Suc.hyps(1)[OF this s] Inr r2 c1 c2 i show ?thesis
      by (simp add: parse_process_step)
  qed
qed

lemma same_splitText:
  assumes "case split cmd of SplitFunction f \<Rightarrow> \<forall>c. pureExt (f c message) | _ \<Rightarrow> True"
    and "erase st1 = erase st2"
  shows "same (splitText cmd content' message st1) (splitText cmd content' message st2)"
proof (cases "split cmd")
  case (SplitFunction f)
  with assms(1) have p: "pureExt (f content' message)" by simp
  from same_call[OF p assms(2), of "EvSplit content'"] SplitFunction show ?thesis
    by (auto simp: splitText_def same_def split: prod.splits sum.splits option.splits)
next
  case (SplitInherited f)
  with assms(2) eraseD[OF assms(2)] show ?thesis
    by (simp add: splitText_def same_def split: sum.splits bool.splits)
qed (use assms(2) eraseD[OF assms(2)] in \<open>simp_all add: splitText_def same_def\<close>)

text \<open>
  Claim C8.  Let the command be deterministic for the context: its resolvers, its
  \<^verbatim>\<open>allow\<close>, \<^verbatim>\<open>default\<close> and mode functions, its probes and its split function yield
  results that do not depend on the outside world.  If a call of \<^verbatim>\<open>parse\<close> made in
  the world \<open>w1\<close> resolves to the result mapping \<open>r\<close>, then the call with the same
  content and context made in any other world \<open>w2\<close> (the world that the first call
  has left behind, for one) resolves to \<open>r\<close> as well, with the same cursor and the
  same events.  Nothing of a call but the outside world reaches another call: its
  mapping, cursor and events start afresh in \<open>parse\<close>.
\<close>

theorem parse_deterministic:
  assumes "deterministic cmd message"
    and "fst (parse cmd content' message w1) = Inr r"
  shows "fst (parse cmd content' message w2) = Inr r
       \<and> processed (snd (parse cmd content' message w2)) = processed (snd (parse cmd content' message w1))
       \<and> wordIndex (snd (parse cmd content' message w2)) = wordIndex (snd (parse cmd content' message w1))
       \<and> trace (snd (parse cmd content' message w2)) = trace (snd (parse cmd content' message w1))"
proof -
  let ?s1 = "\<lparr>processed = [], wordIndex = 0, world = w1, trace = []\<rparr>"
  let ?s2 = "\<lparr>processed = [], wordIndex = 0, world = w2, trace = []\<rparr>"
  have e0: "erase ?s1 = erase ?s2" by (simp add: erase_def)
  from assms(1) have ds: "list_all (deterministicSlot message) (args cmd)"
    and dt: "case split cmd of SplitFunction f \<Rightarrow> \<forall>c. pureExt (f c message) | _ \<Rightarrow> True"
    by (simp_all add: deterministic_def)
  have "agree (parse cmd content' message w1) (parse cmd content' message w2)"
  proof (cases "args cmd = []")
    case True
    then show ?thesis by (simp add: parse_def agree_def same_def erase_def)
  next
    case False
    obtain r1 s1 where c1: "splitText cmd content' message ?s1 = (r1, s1)"
      by (cases "splitText cmd content' message ?s1")
    obtain r2 s2 where c2: "splitText cmd content' message ?s2 = (r2, s2)"
      by (cases "splitText cmd content' message ?s2")
    from same_splitText[OF dt e0, of content'] c1 c2
    have r: "r2 = r1" and s: "erase s1 = erase s2" by (simp_all add: same_def)
    show ?thesis
    proof (cases r1)
      case (Inl e)
      with False c1 c2 r s show ?thesis by (simp add: parse_def agree_def same_def)
    next
      case (Inr split')
      show ?thesis
      proof (cases "getPrefixes cmd")
        case (Inl e)
        with False c1 c2 r s Inr show ?thesis by (simp add: parse_def agree_def same_def)
      next
        case gp: (Inr ds')
        show ?thesis
        proof (cases split')
          case None
          with False c1 c2 r s Inr gp show ?thesis by (simp add: parse_def agree_def same_def)
        next
          case (Some wq)
          obtain ws q where wq: "wq = (ws, q)" by (cases wq)
          from agree_parse_process[OF ds _ s, of 0] False c1 c2 r Inr Some wq gp show ?thesis
            by (simp add: parse_def)
        qed
      qed
    qed
  qed
  with assms(2) show ?thesis
    by (auto simp: agree_def same_def dest: eraseD)
qed

theorem parse_deterministic_witness:
  "deterministic (exCommand exSlots) exMessage
   \<and> parse (exCommand exSlots) ''a b c'' exMessage 0
       = (Inr [(''first'', Str ''a ''), (''rest'', Arr [Str ''b '', Str ''c''])], exSlotsDone)
   \<and> fst (parse (exCommand exSlots) ''a b c'' exMessage (world exSlotsDone))
       = Inr [(''first'', Str ''a ''), (''rest'', Arr [Str ''b '', Str ''c''])]
   \<and> trace (snd (parse (exCommand exSlots) ''a b c'' exMessage (world exSlotsDone)))
       = trace exSlotsDone"
  (is "?H1 \<and> ?H2 \<and> ?C1 \<and> ?C2")
proof -
  have h1: ?H1
    by (simp add: deterministic_def exCommand_def exSlots_def exArg_def exProbe_def
          deterministicArg_def pureExt_def)
  have h2: ?H2 by code_simp
  then have h2': "fst (parse (exCommand exSlots) ''a b c'' exMessage 0)
       = Inr [(''first'', Str ''a ''), (''rest'', Arr [Str ''b '', Str ''c''])]"
    by simp
  from parse_deterministic[OF h1 h2', of "world exSlotsDone"] h2
  have ?C1 and ?C2 by simp_all
  with h1 h2 show ?thesis by (intro conjI)
qed

end
